theory Spec2Isabelle
  imports Main
begin

section \<open>Values, envelopes and sockets\<close>

text \<open>
  The payloads of the protocol are JSON values; \<open>data: any\<close> of the source is a value of
  this type.  \<open>JUndefined\<close> is the value of a parameter the caller did not pass.
\<close>

datatype jsval =
    JUndefined
  | JNull
  | JBool bool
  | JNum int
  | JStr string
  | JArr "jsval list"
  | JObj "(string \<times> jsval) list"

text \<open>The decimal rendering a template literal gives a non-negative integer.\<close>

definition digit :: "nat \<Rightarrow> char" where
  "digit d = ''0123456789'' ! d"

fun string_of_nat :: "nat \<Rightarrow> string" where
  "string_of_nat n =
     (if n < 10 then [digit n] else string_of_nat (n div 10) @ [digit (n mod 10)])"

declare string_of_nat.simps [simp del]

text \<open>The object literal \<open>{ code, data, msg }\<close> of type \<open>Message\<close> (type.ts).\<close>

definition Message :: "int \<Rightarrow> jsval \<Rightarrow> string \<Rightarrow> jsval" where
  "Message code data msg = JObj [(''code'', JNum code), (''data'', data), (''msg'', JStr msg)]"

text \<open>
  \<open>InternalMessage\<close> (type.ts).  An optional property is an \<open>option\<close>; \<open>type\<close> is kept
  as the string that arrives, since the cast after \<open>JSON.parse\<close> checks nothing.
\<close>

record InternalMessage =
  type' :: string
  event' :: "string option"
  fetchId' :: "string option"
  body' :: jsval
  header' :: "(string \<times> string) list option"

record User =
  id' :: string
  groups :: "string list"

record FetchConfig =
  maxWait' :: "nat option"
  hasReply' :: "bool option"
  code' :: "int option"
  msg' :: "string option"

datatype ready_state = CONNECTING | OPEN | CLOSING | CLOSED

text \<open>
  A socket of the \<open>ws\<close> library, as far as the server uses it: its \<open>readyState\<close> and the
  frames handed to \<open>ws.send\<close> (kept before \<open>JSON.stringify\<close>).  Sockets are objects shared
  between the connection table and the message callbacks, so the state holds them in a
  store indexed by a handle.
\<close>

record WebSocket =
  readyState :: ready_state
  sent :: "InternalMessage list"

record ClientConnection =
  ws' :: nat
  user' :: User

text \<open>
  \<open>PendingFetch\<close> (type.ts, with the \<open>clientId\<close> that server.ts stores).  The closures
  \<open>resolve\<close> and \<open>reject\<close> and the timer \<open>timeout\<close> are created together for one promise;
  \<open>promise'\<close> is the handle of that promise and of its timer.
\<close>

record PendingFetch =
  promise' :: nat
  clientId' :: string

datatype error =
    ClientNotFound string
  | RequestTimeout nat
  | ClientDisconnected
  | ConnectionClosed
  | URLNotSet
  | TypeError

datatype outcome = Fulfilled jsval | Rejected error

text \<open>A call either returns or throws; both leave a state behind.\<close>

datatype 's result = Returned 's | Thrown error 's

fun state_of :: "'s result \<Rightarrow> 's" where
  "state_of (Returned s) = s"
| "state_of (Thrown e s) = s"

text \<open>
  What one invocation of a middleware or handler does, as far as the server can see:
  the argument lists of its calls of \<open>reply\<close>, in order, the application state it leaves,
  and whether its promise rejects.
\<close>

record HandlerArgs =
  arg_body :: jsval
  arg_user :: User
  arg_fetchId :: string
  arg_header :: "(string \<times> string) list"
  arg_event :: string

record 'a HandlerRun =
  reply_calls :: "jsval list list"
  app_after :: 'a
  throws :: bool

type_synonym 'a EventHandler = "HandlerArgs \<Rightarrow> 'a \<Rightarrow> 'a HandlerRun"

section \<open>The server\<close>

text \<open>
  The fields of \<open>MasSocketServer\<close>.  \<open>priv_groups\<close> is the private \<open>_groups\<close>.  A \<open>Set\<close>
  is a list without duplicates in insertion order, which is the order \<open>for ... of\<close>
  visits.  \<open>priv_groups\<close> holds the own properties of that plain object; what it
  inherits from its prototype is read through \<open>lookupGroup\<close> below.  The list cache \<open>_cachedClientsList\<close> is derived from
  \<open>clients\<close> and read by no operation here, so it is left out.

  The remaining fields are the environment: the socket store, the active timers
  (\<open>setTimeout\<close> handles, each with the \<open>fetchId\<close> and \<open>maxWait\<close> its callback closes
  over), every invocation of a promise's \<open>resolve\<close> or \<open>reject\<close> in order of time, the
  next promise handle, the values \<open>randomUUID\<close> returns, the application state
  that handlers change, and a trace with one entry for each invocation of a middleware
  or handler: the number of times that invocation called \<open>reply\<close>.
\<close>

record 'a MasSocketServer =
  clients :: "string \<rightharpoonup> ClientConnection"
  eventHandlers :: "string \<rightharpoonup> 'a EventHandler list"
  middlewares :: "'a EventHandler list"
  pendingFetches :: "string \<rightharpoonup> PendingFetch"
  clientPendingFetches :: "string \<rightharpoonup> string list"
  fetchConfig :: FetchConfig
  maxMessageSize :: nat
  priv_groups :: "string \<rightharpoonup> string list"
  sockets :: "nat \<Rightarrow> WebSocket"
  timers :: "nat \<rightharpoonup> string \<times> nat"
  settled :: "(nat \<times> outcome) list"
  nextPromise :: nat
  uuids :: "nat \<Rightarrow> string"
  uuidCount :: nat
  app :: 'a
  invoked :: "nat list"

definition initial :: "(nat \<Rightarrow> string) \<Rightarrow> 'a \<Rightarrow> 'a MasSocketServer" where
  "initial us a =
     \<lparr> clients = Map.empty, eventHandlers = Map.empty, middlewares = [],
       pendingFetches = Map.empty, clientPendingFetches = Map.empty,
       fetchConfig = \<lparr> maxWait' = Some 10000, hasReply' = Some True,
                       code' = Some 200, msg' = Some ''success'' \<rparr>,
       maxMessageSize = 1024 * 1024,
       priv_groups = Map.empty,
       sockets = (\<lambda>_. \<lparr> readyState = OPEN, sent = [] \<rparr>),
       timers = Map.empty, settled = [], nextPromise = 0,
       uuids = us, uuidCount = 0, app = a, invoked = [] \<rparr>"

definition Set_add :: "'k \<Rightarrow> 'k list \<Rightarrow> 'k list" where
  "Set_add x xs = (if x \<in> set xs then xs else xs @ [x])"

definition Set_delete :: "'k \<Rightarrow> 'k list \<Rightarrow> 'k list" where
  "Set_delete x xs = removeAll x xs"

definition randomUUID :: "'a MasSocketServer \<Rightarrow> string \<times> 'a MasSocketServer" where
  "randomUUID s = (uuids s (uuidCount s), s\<lparr> uuidCount := Suc (uuidCount s) \<rparr>)"

definition sendMessage :: "nat \<Rightarrow> InternalMessage \<Rightarrow> 'a MasSocketServer \<Rightarrow> 'a MasSocketServer" where
  "sendMessage ws message s =
     (if readyState (sockets s ws) = OPEN
      then s\<lparr> sockets := (sockets s)(ws := (sockets s ws)\<lparr> sent := sent (sockets s ws) @ [message] \<rparr>) \<rparr>
      else s)"

text \<open>The callback of \<open>wss.on('connection')\<close> in \<open>bind\<close>, for the socket \<open>ws\<close>.\<close>

definition onConnection :: "nat \<Rightarrow> 'a MasSocketServer \<Rightarrow> 'a MasSocketServer" where
  "onConnection ws s =
     (let (clientId, s0) = randomUUID s;
          user = \<lparr> id' = clientId, groups = [] \<rparr>;
          s1 = s0\<lparr> clients := (clients s0)(clientId \<mapsto> \<lparr> ws' = ws, user' = user \<rparr>) \<rparr>
      in sendMessage ws
           \<lparr> type' = ''event'', event' = Some ''_system_id'', fetchId' = None,
             body' = Message 200 (JObj [(''id'', JStr clientId)]) ''Connection established'',
             header' = None \<rparr> s1)"

subsection \<open>Groups\<close>

text \<open>
  \<open>_groups\<close> is a plain object, \<open>{}\<close>: \<open>priv_groups\<close> holds its own properties, and the
  read \<open>this._groups[group]\<close> of a name that is no own property finds what
  \<open>Object.prototype\<close> has under that name: a function or, for \<open>__proto__\<close>, the
  prototype object.  Such a value is truthy and is no \<open>Set\<close>: it has no \<open>add\<close> and no
  \<open>delete\<close> and is not iterable, so calling them or iterating it throws a \<open>TypeError\<close>.
\<close>

definition Object_prototype :: "string list" where
  "Object_prototype =
     [''constructor'', ''__defineGetter__'', ''__defineSetter__'', ''hasOwnProperty'',
      ''__lookupGetter__'', ''__lookupSetter__'', ''isPrototypeOf'', ''propertyIsEnumerable'',
      ''toString'', ''valueOf'', ''__proto__'', ''toLocaleString'']"

datatype property = Missing | Inherited | Own "string list"

definition lookupGroup :: "'a MasSocketServer \<Rightarrow> string \<Rightarrow> property" where
  "lookupGroup s grp =
     (case priv_groups s grp of
        Some ms \<Rightarrow> Own ms
      | None \<Rightarrow> if grp \<in> set Object_prototype then Inherited else Missing)"

definition addGroup :: "string \<Rightarrow> string \<Rightarrow> 'a MasSocketServer \<Rightarrow> 'a MasSocketServer result" where
  "addGroup grp cid s =
     (if clients s cid = None then Thrown (ClientNotFound cid) s
      else if lookupGroup s grp = Inherited then Thrown TypeError s
      else
        let members = (case lookupGroup s grp of Own ms \<Rightarrow> ms | _ \<Rightarrow> []);
            s1 = s\<lparr> priv_groups := (priv_groups s)(grp \<mapsto> Set_add cid members) \<rparr>
        in Returned
             (case clients s1 cid of
                None \<Rightarrow> s1
              | Some connection \<Rightarrow>
                  if grp \<in> set (groups (user' connection)) then s1
                  else s1\<lparr> clients := (clients s1)(cid \<mapsto>
                         connection\<lparr> user' := (user' connection)
                           \<lparr> groups := groups (user' connection) @ [grp] \<rparr> \<rparr>) \<rparr>))"

definition removeGroup :: "string \<Rightarrow> string \<Rightarrow> 'a MasSocketServer \<Rightarrow> 'a MasSocketServer result" where
  "removeGroup grp cid s =
     (if clients s cid = None then Thrown (ClientNotFound cid) s
      else if lookupGroup s grp = Inherited then Thrown TypeError s
      else
        let s1 = (case lookupGroup s grp of
                    Own ms \<Rightarrow>
                      if Set_delete cid ms = []
                      then s\<lparr> priv_groups := (priv_groups s)(grp := None) \<rparr>
                      else s\<lparr> priv_groups := (priv_groups s)(grp \<mapsto> Set_delete cid ms) \<rparr>
                  | _ \<Rightarrow> s)
        in Returned
             (case clients s1 cid of
                None \<Rightarrow> s1
              | Some connection \<Rightarrow>
                  if grp \<in> set (groups (user' connection))
                  then s1\<lparr> clients := (clients s1)(cid \<mapsto>
                         connection\<lparr> user' := (user' connection)
                           \<lparr> groups := remove1 grp (groups (user' connection)) \<rparr> \<rparr>) \<rparr>
                  else s1))"



text \<open>The set kept under the own property \<open>g\<close> of \<open>_groups\<close>.\<close>

definition members :: "'a MasSocketServer \<Rightarrow> string \<Rightarrow> string set" where
  "members s g = (case priv_groups s g of None \<Rightarrow> {} | Some ms \<Rightarrow> set ms)"

subsection \<open>Promises and timers\<close>

text \<open>
  \<open>settle\<close> records that \<open>resolve\<close> or \<open>reject\<close> of promise \<open>q\<close> was invoked.  A promise
  keeps its first settlement; \<open>promise_state\<close> reads it off the record.
\<close>

definition newPromise :: "'a MasSocketServer \<Rightarrow> nat \<times> 'a MasSocketServer" where
  "newPromise s = (nextPromise s, s\<lparr> nextPromise := Suc (nextPromise s) \<rparr>)"

definition settle :: "nat \<Rightarrow> outcome \<Rightarrow> 'a MasSocketServer \<Rightarrow> 'a MasSocketServer" where
  "settle q out s = s\<lparr> settled := settled s @ [(q, out)] \<rparr>"

definition clearTimeout :: "nat \<Rightarrow> 'a MasSocketServer \<Rightarrow> 'a MasSocketServer" where
  "clearTimeout t s = s\<lparr> timers := (timers s)(t := None) \<rparr>"

definition promise_state :: "(nat \<times> outcome) list \<Rightarrow> nat \<Rightarrow> outcome option" where
  "promise_state log q = map_of log q"

text \<open>The closures stored in a \<open>PendingFetch\<close>: each clears the timer, then settles.\<close>

definition pending_resolve :: "PendingFetch \<Rightarrow> jsval \<Rightarrow> 'a MasSocketServer \<Rightarrow> 'a MasSocketServer" where
  "pending_resolve pending v s =
     settle (promise' pending) (Fulfilled v) (clearTimeout (promise' pending) s)"

definition pending_reject :: "PendingFetch \<Rightarrow> error \<Rightarrow> 'a MasSocketServer \<Rightarrow> 'a MasSocketServer" where
  "pending_reject pending reason s =
     settle (promise' pending) (Rejected reason) (clearTimeout (promise' pending) s)"

text \<open>
  \<open>Promise.all\<close> over the promises \<open>qs\<close>: it rejects with the first rejection in time
  among them, and fulfils with the array of their values once all are fulfilled.
\<close>

fun first_rejection :: "nat list \<Rightarrow> nat list \<Rightarrow> (nat \<times> outcome) list \<Rightarrow> error option" where
  "first_rejection qs seen [] = None"
| "first_rejection qs seen ((q, out) # log) =
     (if q \<in> set seen then first_rejection qs seen log
      else case out of
             Rejected e \<Rightarrow> if q \<in> set qs then Some e else first_rejection qs (q # seen) log
           | Fulfilled v \<Rightarrow> first_rejection qs (q # seen) log)"

definition is_fulfilled :: "(nat \<times> outcome) list \<Rightarrow> nat \<Rightarrow> bool" where
  "is_fulfilled log q = (case promise_state log q of Some (Fulfilled v) \<Rightarrow> True | _ \<Rightarrow> False)"

definition value_of :: "(nat \<times> outcome) list \<Rightarrow> nat \<Rightarrow> jsval" where
  "value_of log q = (case promise_state log q of Some (Fulfilled v) \<Rightarrow> v | _ \<Rightarrow> JUndefined)"

definition Promise_all :: "(nat \<times> outcome) list \<Rightarrow> nat list \<Rightarrow> outcome option" where
  "Promise_all log qs =
     (case first_rejection qs [] log of
        Some e \<Rightarrow> Some (Rejected e)
      | None \<Rightarrow> if list_all (is_fulfilled log) qs
                then Some (Fulfilled (JArr (map (value_of log) qs)))
                else None)"

subsection \<open>Teardown of a connection\<close>

text \<open>The removal of a fetch id from the reverse index, as both the reply branch and
  the timeout callback do it.\<close>

definition dropReverseIndex :: "string \<Rightarrow> string \<Rightarrow> 'a MasSocketServer \<Rightarrow> 'a MasSocketServer" where
  "dropReverseIndex clientId fetchId s =
     (case clientPendingFetches s clientId of
        None \<Rightarrow> s
      | Some clientPendingSet \<Rightarrow>
          if Set_delete fetchId clientPendingSet = []
          then s\<lparr> clientPendingFetches := (clientPendingFetches s)(clientId := None) \<rparr>
          else s\<lparr> clientPendingFetches :=
                   (clientPendingFetches s)(clientId \<mapsto> Set_delete fetchId clientPendingSet) \<rparr>)"

definition cancelPending :: "'a MasSocketServer \<Rightarrow> string \<Rightarrow> 'a MasSocketServer" where
  "cancelPending s fetchId =
     (case pendingFetches s fetchId of
        None \<Rightarrow> s
      | Some pending \<Rightarrow>
          let s1 = clearTimeout (promise' pending) s;
              s2 = pending_reject pending ClientDisconnected s1
          in s2\<lparr> pendingFetches := (pendingFetches s2)(fetchId := None) \<rparr>)"

definition leaveOnCleanup :: "string \<Rightarrow> 'a MasSocketServer result \<Rightarrow> string \<Rightarrow> 'a MasSocketServer result" where
  "leaveOnCleanup clientId r grp =
     (case r of
        Thrown e s \<Rightarrow> Thrown e s
      | Returned s \<Rightarrow>
          (case lookupGroup s grp of
             Missing \<Rightarrow> Returned s
           | Inherited \<Rightarrow> Thrown TypeError s
           | Own groupMembers \<Rightarrow>
               if Set_delete clientId groupMembers = []
               then Returned (s\<lparr> priv_groups := (priv_groups s)(grp := None) \<rparr>)
               else Returned (s\<lparr> priv_groups :=
                       (priv_groups s)(grp \<mapsto> Set_delete clientId groupMembers) \<rparr>)))"

text \<open>
  \<open>cleanupClient\<close>; \<open>cancelPending\<close> and \<open>leaveOnCleanup\<close> are the bodies of its two loops.
  The second loop stops at the first name that throws, and then the peer stays in
  the client table.
\<close>

definition cleanupClient :: "string \<Rightarrow> 'a MasSocketServer \<Rightarrow> 'a MasSocketServer result" where
  "cleanupClient clientId s =
     (case clients s clientId of
        None \<Rightarrow> Returned s
      | Some connection \<Rightarrow>
          let s1 = (case clientPendingFetches s clientId of
                      None \<Rightarrow> s
                    | Some pendingFetchIds \<Rightarrow>
                        let s' = foldl cancelPending s pendingFetchIds
                        in s'\<lparr> clientPendingFetches := (clientPendingFetches s')(clientId := None) \<rparr>);
              user = user' connection
          in case foldl (leaveOnCleanup clientId) (Returned s1) (groups user) of
               Thrown e s2 \<Rightarrow> Thrown e s2
             | Returned s2 \<Rightarrow> Returned (s2\<lparr> clients := (clients s2)(clientId := None) \<rparr>))"

subsection \<open>Inbound messages\<close>

text \<open>
  The result of \<open>JSON.parse\<close> followed by the cast: a syntax error, the value \<open>null\<close>
  (whose destructuring throws), or an envelope.  The parser itself is a parameter.
\<close>

datatype parsed = SyntaxError | ParsedNull | Parsed InternalMessage

text \<open>
  The closure \<open>reply\<close> with the variable \<open>replied\<close> it captures.  It has the single
  parameter \<open>data\<close>: of the arguments of a call the first is bound and the rest dropped.
\<close>

definition reply :: "nat \<Rightarrow> string \<Rightarrow> jsval list \<Rightarrow> bool \<times> 'a MasSocketServer \<Rightarrow> bool \<times> 'a MasSocketServer" where
  "reply ws fetchId arguments rs =
     (case rs of (replied, s) \<Rightarrow>
        if replied then (replied, s)
        else (True, sendMessage ws
                \<lparr> type' = ''reply'', event' = None, fetchId' = Some fetchId,
                  body' = (case arguments of [] \<Rightarrow> JUndefined | data # _ \<Rightarrow> data),
                  header' = None \<rparr> s))"

text \<open>One awaited call of a middleware or handler.  The first component tells whether it threw.\<close>

definition invoke :: "nat \<Rightarrow> string \<Rightarrow> HandlerArgs \<Rightarrow> 'a EventHandler \<Rightarrow>
    bool \<times> 'a MasSocketServer \<Rightarrow> bool \<times> (bool \<times> 'a MasSocketServer)" where
  "invoke ws fetchId args h rs =
     (case rs of (replied, s) \<Rightarrow>
        let run = h args (app s);
            s1 = s\<lparr> app := app_after run, invoked := invoked s @ [length (reply_calls run)] \<rparr>
        in (throws run, foldl (\<lambda>rs call. reply ws fetchId call rs) (replied, s1) (reply_calls run)))"

text \<open>
  The two loops of \<open>handleMessage\<close>, over the middlewares and over the handlers, have
  the same body up to the text of the 500 reply, which is the first parameter here.
  \<open>Aborted\<close> is the \<open>return\<close> in the \<open>catch\<close> block; \<open>Completed\<close> is the end of the loop,
  by exhaustion or by \<open>break\<close>.
\<close>

datatype chain_end = Completed | Aborted

fun run_chain :: "string \<Rightarrow> nat \<Rightarrow> string \<Rightarrow> HandlerArgs \<Rightarrow> 'a EventHandler list \<Rightarrow>
    bool \<times> 'a MasSocketServer \<Rightarrow> chain_end \<times> (bool \<times> 'a MasSocketServer)" where
  "run_chain errmsg ws fetchId args [] rs = (Completed, rs)"
| "run_chain errmsg ws fetchId args (h # hs) rs =
     (if fst rs then (Completed, rs)
      else case invoke ws fetchId args h rs of
             (True, rs1) \<Rightarrow>
               (Aborted, if \<not> fst rs1 then reply ws fetchId [Message 500 JNull errmsg] rs1 else rs1)
           | (False, rs1) \<Rightarrow> run_chain errmsg ws fetchId args hs rs1)"

definition reply_branch :: "string \<Rightarrow> jsval \<Rightarrow> 'a MasSocketServer \<Rightarrow> 'a MasSocketServer" where
  "reply_branch fetchId body s =
     (case pendingFetches s fetchId of
        None \<Rightarrow> s
      | Some pending \<Rightarrow>
          let s1 = clearTimeout (promise' pending) s;
              s2 = s1\<lparr> pendingFetches := (pendingFetches s1)(fetchId := None) \<rparr>;
              s3 = dropReverseIndex (clientId' pending) fetchId s2
          in pending_resolve pending body s3)"

definition event_branch :: "nat \<Rightarrow> User \<Rightarrow> string \<Rightarrow> string \<Rightarrow> jsval \<Rightarrow> (string \<times> string) list \<Rightarrow>
    'a MasSocketServer \<Rightarrow> 'a MasSocketServer" where
  "event_branch ws user event fetchId body header s =
     (let args = \<lparr> arg_body = body, arg_user = user, arg_fetchId = fetchId,
                   arg_header = header, arg_event = event \<rparr>
      in case run_chain ''Middleware error'' ws fetchId args (middlewares s) (False, s) of
           (Aborted, rs) \<Rightarrow> snd rs
         | (Completed, (replied, s1)) \<Rightarrow>
             if \<not> replied then
               let handlers = (case eventHandlers s1 event of None \<Rightarrow> [] | Some hs \<Rightarrow> hs)
               in case run_chain ''Handler error'' ws fetchId args handlers (replied, s1) of
                    (Aborted, rs) \<Rightarrow> snd rs
                  | (Completed, (replied2, s2)) \<Rightarrow>
                      if \<not> replied2 \<and> fetchId \<noteq> ''''
                      then snd (reply ws fetchId
                                  [Message 404 JNull (''No handler for event: '' @ event)]
                                  (replied2, s2))
                      else s2
             else s1)"

text \<open>
  \<open>handleMessage\<close>.  The raw message is its UTF-8 bytes, so \<open>Buffer.byteLength\<close> is the
  length.  The pipeline of one message is taken as one step: what other callbacks do
  while a handler is awaited is not part of this function.
\<close>

definition handleMessage :: "(string \<Rightarrow> parsed) \<Rightarrow> nat \<Rightarrow> User \<Rightarrow> string \<Rightarrow>
    'a MasSocketServer \<Rightarrow> 'a MasSocketServer result" where
  "handleMessage JSON_parse ws user rawMessage s =
     (let messageSize = length rawMessage
      in if messageSize > maxMessageSize s
         then Returned (sendMessage ws
                \<lparr> type' = ''reply'', event' = None, fetchId' = None,
                  body' = Message 413 JNull
                    (''Message too large. Maximum size is '' @ string_of_nat (maxMessageSize s)
                       @ '' bytes''),
                  header' = None \<rparr> s)
         else case JSON_parse rawMessage of
                SyntaxError \<Rightarrow>
                  Returned (sendMessage ws
                    \<lparr> type' = ''reply'', event' = None, fetchId' = None,
                      body' = Message 400 JNull ''Invalid message format'', header' = None \<rparr> s)
              | ParsedNull \<Rightarrow> Thrown TypeError s
              | Parsed message \<Rightarrow>
                  let fetchId = (case fetchId' message of None \<Rightarrow> '''' | Some f \<Rightarrow> f);
                      header = (case header' message of None \<Rightarrow> [] | Some h \<Rightarrow> h)
                  in if type' message = ''reply'' \<and> fetchId \<noteq> ''''
                     then Returned (reply_branch fetchId (body' message) s)
                     else case event' message of
                            None \<Rightarrow> Returned s
                          | Some event \<Rightarrow>
                              if type' message = ''event'' \<and> event \<noteq> ''''
                              then Returned (event_branch ws user event fetchId (body' message) header s)
                              else Returned s)"

subsection \<open>Fetch\<close>

datatype target = One string | Many "string list"

text \<open>What the async function \<open>fetch\<close> returns: nothing, \<open>promises[0]\<close>, or
  \<open>Promise.all(promises)\<close>.\<close>

datatype fetch_return = Undefined | Single nat | All "nat list"

text \<open>\<open>{ ...this.fetchConfig, ...config }\<close>: a property of \<open>config\<close> that is present wins.\<close>

definition mergeConfig :: "FetchConfig \<Rightarrow> FetchConfig option \<Rightarrow> FetchConfig" where
  "mergeConfig base config =
     (case config of
        None \<Rightarrow> base
      | Some c \<Rightarrow>
          \<lparr> maxWait' = (case maxWait' c of None \<Rightarrow> maxWait' base | Some v \<Rightarrow> Some v),
            hasReply' = (case hasReply' c of None \<Rightarrow> hasReply' base | Some v \<Rightarrow> Some v),
            code' = (case code' c of None \<Rightarrow> code' base | Some v \<Rightarrow> Some v),
            msg' = (case msg' c of None \<Rightarrow> msg' base | Some v \<Rightarrow> Some v) \<rparr>)"

text \<open>The callback of the deadline timer with handle \<open>q\<close>.  A cleared timer never fires.\<close>

definition timeout_callback :: "nat \<Rightarrow> 'a MasSocketServer \<Rightarrow> 'a MasSocketServer" where
  "timeout_callback q s =
     (case timers s q of
        None \<Rightarrow> s
      | Some (fetchId, maxWait) \<Rightarrow>
          let s0 = s\<lparr> timers := (timers s)(q := None) \<rparr>;
              s1 = (case pendingFetches s0 fetchId of
                      None \<Rightarrow> s0
                    | Some pending \<Rightarrow> dropReverseIndex (clientId' pending) fetchId s0);
              s2 = s1\<lparr> pendingFetches := (pendingFetches s1)(fetchId := None) \<rparr>
          in settle q (Rejected (RequestTimeout maxWait)) s2)"

text \<open>The body of the loop of \<open>fetch\<close> that awaits replies, for one target id.\<close>

definition fetch_target :: "string \<Rightarrow> nat \<Rightarrow> int \<Rightarrow> jsval \<Rightarrow> string \<Rightarrow>
    nat list \<times> 'a MasSocketServer \<Rightarrow> string \<Rightarrow> nat list \<times> 'a MasSocketServer" where
  "fetch_target event maxWait code data msg acc clientId =
     (case acc of (promises, s) \<Rightarrow>
        case clients s clientId of
          None \<Rightarrow>
            let (q, s1) = newPromise s
            in (promises @ [q], settle q (Rejected (ClientNotFound clientId)) s1)
        | Some connection \<Rightarrow>
            let (fetchId, s1) = randomUUID s;
                (q, s2) = newPromise s1;
                s3 = s2\<lparr> timers := (timers s2)(q \<mapsto> (fetchId, maxWait)) \<rparr>;
                s4 = s3\<lparr> pendingFetches := (pendingFetches s3)
                          (fetchId \<mapsto> \<lparr> promise' = q, clientId' = clientId \<rparr>) \<rparr>;
                s5 = (if clientPendingFetches s4 clientId = None
                      then s4\<lparr> clientPendingFetches := (clientPendingFetches s4)(clientId \<mapsto> []) \<rparr>
                      else s4);
                s6 = s5\<lparr> clientPendingFetches := (clientPendingFetches s5)
                          (clientId \<mapsto> Set_add fetchId
                             (case clientPendingFetches s5 clientId of None \<Rightarrow> [] | Some fs \<Rightarrow> fs)) \<rparr>
            in (promises @ [q],
                sendMessage (ws' connection)
                  \<lparr> type' = ''event'', event' = Some event, fetchId' = Some fetchId,
                    body' = Message code data msg, header' = None \<rparr> s6))"

definition notify_target :: "string \<Rightarrow> int \<Rightarrow> jsval \<Rightarrow> string \<Rightarrow>
    'a MasSocketServer \<Rightarrow> string \<Rightarrow> 'a MasSocketServer" where
  "notify_target event code data msg s clientId =
     (case clients s clientId of
        None \<Rightarrow> s
      | Some connection \<Rightarrow>
          sendMessage (ws' connection)
            \<lparr> type' = ''event'', event' = Some event, fetchId' = None,
              body' = Message code data msg, header' = None \<rparr> s)"

definition fetch :: "target \<Rightarrow> string \<Rightarrow> jsval \<Rightarrow> FetchConfig option \<Rightarrow>
    'a MasSocketServer \<Rightarrow> fetch_return \<times> 'a MasSocketServer" where
  "fetch tgt event data config s =
     (let ids = (case tgt of One i \<Rightarrow> [i] | Many is \<Rightarrow> is);
          finalConfig = mergeConfig (fetchConfig s) config;
          maxWait = (case maxWait' finalConfig of None \<Rightarrow> 10000 | Some v \<Rightarrow> v);
          hasReply = (case hasReply' finalConfig of None \<Rightarrow> True | Some v \<Rightarrow> v);
          code = (case code' finalConfig of None \<Rightarrow> 200 | Some v \<Rightarrow> v);
          msg = (case msg' finalConfig of None \<Rightarrow> ''success'' | Some v \<Rightarrow> v)
      in if \<not> hasReply
         then (Undefined, foldl (notify_target event code data msg) s ids)
         else
           let (promises, s1) = foldl (fetch_target event maxWait code data msg) ([], s) ids
           in if length promises = 1 then (Single (promises ! 0), s1)
              else (All promises, s1))"

text \<open>The state of the promise a call of \<open>fetch\<close> returned, given the settlements so far.\<close>

definition returned_promise :: "(nat \<times> outcome) list \<Rightarrow> fetch_return \<Rightarrow> outcome option" where
  "returned_promise log r =
     (case r of
        Undefined \<Rightarrow> Some (Fulfilled JUndefined)
      | Single q \<Rightarrow> promise_state log q
      | All qs \<Rightarrow> Promise_all log qs)"

text \<open>\<open>use\<close> and \<open>on\<close>.\<close>

definition use :: "'a EventHandler \<Rightarrow> 'a MasSocketServer \<Rightarrow> 'a MasSocketServer" where
  "use handler s = s\<lparr> middlewares := middlewares s @ [handler] \<rparr>"

definition on :: "string \<Rightarrow> 'a EventHandler \<Rightarrow> 'a MasSocketServer \<Rightarrow> 'a MasSocketServer" where
  "on event handler s =
     s\<lparr> eventHandlers := (eventHandlers s)(event \<mapsto>
          (case eventHandlers s event of None \<Rightarrow> [] | Some hs \<Rightarrow> hs) @ [handler]) \<rparr>"

text \<open>A state with two connected peers, \<open>c\<close> and \<open>cc\<close>, for the examples below.\<close>

definition two_peers :: "nat MasSocketServer" where
  "two_peers = onConnection 1 (onConnection 0 (initial (\<lambda>n. replicate (Suc n) CHR ''c'') 0))"

subsection \<open>Relations for the analysis of the pipeline\<close>

text \<open>What a pipeline may do to the socket store: append frames to the sender's socket.\<close>

definition appended :: "nat \<Rightarrow> InternalMessage list \<Rightarrow> 'a MasSocketServer \<Rightarrow> (nat \<Rightarrow> WebSocket)" where
  "appended ws fs s = (sockets s)(ws := (sockets s ws)\<lparr> sent := sent (sockets s ws) @ fs \<rparr>)"

text \<open>The pipeline relation: between the state at the start of the pipeline and a later one.\<close>

definition pipe_rel :: "nat \<Rightarrow> 'a MasSocketServer \<Rightarrow> bool \<times> 'a MasSocketServer \<Rightarrow> bool" where
  "pipe_rel ws s0 rs \<longleftrightarrow>
     (\<exists>fs. length fs \<le> 1 \<and> (\<not> fst rs \<longrightarrow> fs = []) \<and> sockets (snd rs) = appended ws fs s0)"

text \<open>The pipeline touches nothing but the sockets, the application state and the trace.\<close>

definition only_io :: "'a MasSocketServer \<Rightarrow> 'a MasSocketServer \<Rightarrow> bool" where
  "only_io s t \<longleftrightarrow>
     clients t = clients s \<and> eventHandlers t = eventHandlers s \<and> middlewares t = middlewares s \<and>
     pendingFetches t = pendingFetches s \<and> clientPendingFetches t = clientPendingFetches s \<and>
     fetchConfig t = fetchConfig s \<and> maxMessageSize t = maxMessageSize s \<and>
     priv_groups t = priv_groups s \<and> timers t = timers s \<and> settled t = settled s \<and>
     nextPromise t = nextPromise s \<and> uuids t = uuids s \<and> uuidCount t = uuidCount s"

definition trace_rel :: "'a MasSocketServer \<Rightarrow> bool \<times> 'a MasSocketServer \<Rightarrow> bool" where
  "trace_rel s0 rs \<longleftrightarrow>
     (\<exists>ns. invoked (snd rs) = invoked s0 @ ns \<and> list_all (\<lambda>n. n = 0) (butlast ns) \<and>
           (\<not> fst rs \<longrightarrow> list_all (\<lambda>n. n = 0) ns))"

definition reject_all :: "nat EventHandler" where
  "reject_all args a =
     \<lparr> reply_calls = [[JNull, JNum 401, JStr ''Unauthorized'']], app_after = a, throws = False \<rparr>"

definition count_hits :: "nat EventHandler" where
  "count_hits args a =
     \<lparr> reply_calls = [[JObj [(''ok'', JBool True)]]], app_after = Suc a, throws = False \<rparr>"

definition guarded_server :: "nat MasSocketServer" where
  "guarded_server = on ''hit'' count_hits (use reject_all two_peers)"

definition hit_message :: InternalMessage where
  "hit_message = \<lparr> type' = ''event'', event' = Some ''hit'', fetchId' = Some ''f1'',
                    body' = JNull, header' = None \<rparr>"

definition peer_c :: User where
  "peer_c = \<lparr> id' = ''c'', groups = [] \<rparr>"

definition ping_message :: "string option \<Rightarrow> InternalMessage" where
  "ping_message f = \<lparr> type' = ''event'', event' = Some ''ping'', fetchId' = f,
                      body' = JNull, header' = None \<rparr>"

text \<open>A handler that throws before it has replied, and a server that has it for \<open>ping\<close>.\<close>

definition failing :: "nat EventHandler" where
  "failing args a = \<lparr> reply_calls = [], app_after = a, throws = True \<rparr>"

definition faulty_server :: "nat MasSocketServer" where
  "faulty_server = on ''ping'' failing two_peers"

subsection \<open>The pending-request tracker in the states the server can reach\<close>

text \<open>
  Every pending request is listed in the reverse index of its owner.
\<close>

definition reverse_index_covers :: "'a MasSocketServer \<Rightarrow> bool" where
  "reverse_index_covers s \<longleftrightarrow>
     (\<forall>f p. pendingFetches s f = Some p \<longrightarrow>
        (\<exists>fs. clientPendingFetches s (clientId' p) = Some fs \<and> f \<in> set fs))"

text \<open>
  The tracker, when \<open>randomUUID\<close> never repeats a value: a pending entry and the timer
  of its promise exist together, a settled promise has neither, no promise is settled
  twice, and every promise created so far is either settled or waiting with its timer.
\<close>

definition tracker_inv :: "'a MasSocketServer \<Rightarrow> bool" where
  "tracker_inv s \<longleftrightarrow>
     inj (uuids s) \<and>
     (\<forall>f p. pendingFetches s f = Some p \<longrightarrow> (\<exists>w. timers s (promise' p) = Some (f, w))) \<and>
     (\<forall>q f w. timers s q = Some (f, w) \<longrightarrow>
        (\<exists>p. pendingFetches s f = Some p \<and> promise' p = q) \<and>
        q < nextPromise s \<and> (\<exists>n < uuidCount s. f = uuids s n)) \<and>
     (\<forall>q out. (q, out) \<in> set (settled s) \<longrightarrow> timers s q = None \<and> q < nextPromise s) \<and>
     distinct (map fst (settled s)) \<and>
     (\<forall>q < nextPromise s. q \<in> fst ` set (settled s) \<or> timers s q \<noteq> None)"

text \<open>Changes of the environment and of the public fields.\<close>

definition socket_state :: "nat \<Rightarrow> ready_state \<Rightarrow> 'a MasSocketServer \<Rightarrow> 'a MasSocketServer" where
  "socket_state ws st s = s\<lparr> sockets := (sockets s)(ws := (sockets s ws)\<lparr> readyState := st \<rparr>) \<rparr>"

text \<open>
  The states the server can be in: from a new server, by registrations, connections,
  fetches, inbound messages on any socket, deadline timers firing, teardowns, group
  operations, sockets changing state and assignments to the public fields.
\<close>

inductive reachable :: "(string \<Rightarrow> parsed) \<Rightarrow> 'a MasSocketServer \<Rightarrow> bool"
  for JSON_parse :: "string \<Rightarrow> parsed" where
  new: "reachable JSON_parse (initial us a)"
| use: "reachable JSON_parse s \<Longrightarrow> reachable JSON_parse (use h s)"
| on: "reachable JSON_parse s \<Longrightarrow> reachable JSON_parse (on e h s)"
| connect: "reachable JSON_parse s \<Longrightarrow> reachable JSON_parse (onConnection ws s)"
| fetch: "reachable JSON_parse s \<Longrightarrow> reachable JSON_parse (snd (fetch tgt e d cfg s))"
| message: "reachable JSON_parse s \<Longrightarrow>
     reachable JSON_parse (state_of (handleMessage JSON_parse ws u raw s))"
| timeout: "reachable JSON_parse s \<Longrightarrow> reachable JSON_parse (timeout_callback q s)"
| cleanup: "reachable JSON_parse s \<Longrightarrow> reachable JSON_parse (state_of (cleanupClient c s))"
| join: "reachable JSON_parse s \<Longrightarrow> reachable JSON_parse (state_of (addGroup g c s))"
| leave: "reachable JSON_parse s \<Longrightarrow> reachable JSON_parse (state_of (removeGroup g c s))"
| socket: "reachable JSON_parse s \<Longrightarrow> reachable JSON_parse (socket_state ws st s)"
| config: "reachable JSON_parse s \<Longrightarrow> reachable JSON_parse (s\<lparr> fetchConfig := cfg \<rparr>)"
| limit: "reachable JSON_parse s \<Longrightarrow> reachable JSON_parse (s\<lparr> maxMessageSize := n \<rparr>)"

text \<open>Two states with the same tracker.\<close>

definition same_tracker :: "'a MasSocketServer \<Rightarrow> 'a MasSocketServer \<Rightarrow> bool" where
  "same_tracker s t \<longleftrightarrow>
     pendingFetches t = pendingFetches s \<and> clientPendingFetches t = clientPendingFetches s \<and>
     timers t = timers s \<and> settled t = settled s \<and> nextPromise t = nextPromise s \<and>
     uuids t = uuids s"

text \<open>Examples: the state \<open>two_peers\<close> after two calls and after one call of \<open>fetch\<close>
  to the peer \<open>c\<close>, a reply to the first request, and the state after that reply.\<close>

definition two_requests :: "nat MasSocketServer" where
  "two_requests = snd (fetch (One ''c'') ''ask'' JNull None
                    (snd (fetch (One ''c'') ''ask'' JNull None two_peers)))"

definition one_request :: "nat MasSocketServer" where
  "one_request = snd (fetch (One ''c'') ''ask'' JNull None two_peers)"

definition pong_message :: InternalMessage where
  "pong_message = \<lparr> type' = ''reply'', event' = None, fetchId' = Some ''ccc'',
                     body' = JStr ''pong'', header' = None \<rparr>"

definition after_reply :: "nat MasSocketServer" where
  "after_reply = state_of (handleMessage (\<lambda>_. Parsed pong_message) 0 peer_c ''{}'' two_requests)"

text \<open>The rejections the loop of \<open>fetch\<close> makes at once: one for each unknown target,
  on the promise created at the target's position.\<close>

fun rejections :: "(string \<rightharpoonup> ClientConnection) \<Rightarrow> nat \<Rightarrow> string list \<Rightarrow> (nat \<times> outcome) list" where
  "rejections cl n [] = []"
| "rejections cl n (i # ids) =
     (case cl i of None \<Rightarrow> [(n, Rejected (ClientNotFound i))] | Some c \<Rightarrow> [])
     @ rejections cl (Suc n) ids"

section \<open>The client\<close>

text \<open>
  \<open>MasSocketClinet\<close> (client-browser.ts), as far as connecting and reconnecting go.
  \<open>config_c\<close> is the private \<open>config\<close>, \<open>ws_c\<close> the current socket and \<open>pendingFetches_c\<close> the
  pending map in insertion order, each \<open>fetchId\<close> with the handle of its deadline timer.
  \<open>maxReconnectCount\<close> is taken to be a natural number.  The public callback
  \<open>onDisconnect\<close> acts on the application state only.

  The remaining fields are the environment: the active timers (\<open>setTimeout\<close> handles,
  each with its callback and delay), the next timer handle and the next socket, the
  sockets on which \<open>close()\<close> was called, the rejections of pending requests, and the
  application state.  A timer handle is truthy, as in a browser.
\<close>

datatype status = Connecting | Connected | Disconnected

record ClientConfig =
  maxReconnectCount :: nat
  maxConnectTimeout :: nat
  url :: string
  status :: status

datatype callback = Reconnect | ConnectDeadline | FetchDeadline string nat

record 'a MasSocketClinet =
  ws_c :: "nat option"
  pendingFetches_c :: "(string \<times> nat) list"
  reconnectTimer :: "nat option"
  reconnectCount :: nat
  shouldReconnect :: bool
  connectTimeout :: "nat option"
  config_c :: ClientConfig
  onDisconnect :: "'a \<Rightarrow> 'a"
  scheduled :: "nat \<rightharpoonup> callback \<times> nat"
  nextTimer :: nat
  nextSocket :: nat
  closed_c :: "nat list"
  failed :: "(string \<times> error) list"
  app_c :: 'a


definition setTimeout :: "callback \<Rightarrow> nat \<Rightarrow> 'a MasSocketClinet \<Rightarrow> nat \<times> 'a MasSocketClinet" where
  "setTimeout cb delay s =
     (nextTimer s, s\<lparr> scheduled := (scheduled s)(nextTimer s \<mapsto> (cb, delay)),
                      nextTimer := Suc (nextTimer s) \<rparr>)"

definition clearTimeout_c :: "nat \<Rightarrow> 'a MasSocketClinet \<Rightarrow> 'a MasSocketClinet" where
  "clearTimeout_c h s = s\<lparr> scheduled := (scheduled s)(h := None) \<rparr>"

text \<open>The statement \<open>if (this.connectTimeout) { clearTimeout(...); this.connectTimeout = null }\<close>.\<close>

definition clearConnectTimeout :: "'a MasSocketClinet \<Rightarrow> 'a MasSocketClinet" where
  "clearConnectTimeout s =
     (case connectTimeout s of
        None \<Rightarrow> s
      | Some h \<Rightarrow> (clearTimeout_c h s)\<lparr> connectTimeout := None \<rparr>)"

text \<open>
  \<open>setupWebSocket\<close>: the deadline timer is set, then the socket is created and the
  four listeners are attached to it.  The listeners close over the client, not over
  the socket, so they are functions of the client state (below).
\<close>

definition setupWebSocket :: "'a MasSocketClinet \<Rightarrow> 'a MasSocketClinet result" where
  "setupWebSocket s =
     (if url (config_c s) = [] then Thrown URLNotSet s
      else
        let s1 = clearConnectTimeout s;
            (h, s2) = setTimeout ConnectDeadline (maxConnectTimeout (config_c s1)) s1;
            s3 = s2\<lparr> connectTimeout := Some h \<rparr>
        in Returned (s3\<lparr> ws_c := Some (nextSocket s3), nextSocket := Suc (nextSocket s3) \<rparr>))"


text \<open>The listeners for \<open>open\<close>, \<open>close\<close> and \<open>error\<close> that \<open>setupWebSocket\<close> attaches.\<close>

definition open_listener :: "'a MasSocketClinet \<Rightarrow> 'a MasSocketClinet" where
  "open_listener s =
     (let s1 = clearConnectTimeout s
      in s1\<lparr> config_c := (config_c s1)\<lparr> status := Connected \<rparr>, reconnectCount := 0 \<rparr>)"




text \<open>\<open>cleanupPendingFetches\<close>, \<open>close\<close>, \<open>setConfig\<close> and \<open>connect\<close>.\<close>

definition cleanupPendingFetches :: "'a MasSocketClinet \<Rightarrow> 'a MasSocketClinet" where
  "cleanupPendingFetches s =
     (foldl (\<lambda>t p. (clearTimeout_c (snd p) t)\<lparr> failed := failed t @ [(fst p, ConnectionClosed)] \<rparr>)
            s (pendingFetches_c s))
       \<lparr> pendingFetches_c := [] \<rparr>"

definition close :: "'a MasSocketClinet \<Rightarrow> 'a MasSocketClinet" where
  "close s =
     (let s1 = s\<lparr> shouldReconnect := False \<rparr>;
          s2 = (case reconnectTimer s1 of
                  None \<Rightarrow> s1
                | Some h \<Rightarrow> (clearTimeout_c h s1)\<lparr> reconnectTimer := None \<rparr>);
          s3 = clearConnectTimeout s2;
          s4 = (case ws_c s3 of
                  None \<Rightarrow> s3
                | Some w \<Rightarrow> s3\<lparr> closed_c := closed_c s3 @ [w], ws_c := None \<rparr>);
          s5 = s4\<lparr> config_c := (config_c s4)\<lparr> status := Disconnected \<rparr> \<rparr>
      in cleanupPendingFetches s5)"


definition connect :: "string \<Rightarrow> 'a MasSocketClinet \<Rightarrow> 'a MasSocketClinet result" where
  "connect u s =
     (let s0 = (if ws_c s \<noteq> None \<and> status (config_c s) \<noteq> Disconnected then close s else s);
          s1 = s0\<lparr> config_c := (config_c s0)\<lparr> url := u, status := Connecting \<rparr>,
                   shouldReconnect := True, reconnectCount := 0 \<rparr>
      in setupWebSocket s1)"











section \<open>Leaving a group needs a live peer\<close>

text \<open>
  C10.  For every group name and every id that is not a connected client,
  \<open>removeGroup\<close> throws \<open>Client <id> not found\<close> and the state it leaves is the state
  it was called in: neither the group table nor any peer's group list has changed.
\<close>

theorem removeGroup_unknown_client_throws:
  "clients s cid = None \<Longrightarrow> removeGroup grp cid s = Thrown (ClientNotFound cid) s"
  by (simp add: removeGroup_def)

theorem removeGroup_unknown_client_throws_witness:
  "clients (initial (\<lambda>n. replicate (Suc n) CHR ''c'') (0::nat)) ''ghost'' = None \<and>
   removeGroup ''admins'' ''ghost'' (initial (\<lambda>n. replicate (Suc n) CHR ''c'') (0::nat))
     = Thrown (ClientNotFound ''ghost'') (initial (\<lambda>n. replicate (Suc n) CHR ''c'') 0)"
  using removeGroup_unknown_client_throws
    [of "initial (\<lambda>n. replicate (Suc n) CHR ''c'') (0::nat)" "''ghost''" "''admins''"]
  by (simp add: initial_def)

section \<open>The group registry\<close>

lemma Set_add_set [simp]: "set (Set_add x xs) = insert x (set xs)"
  by (auto simp: Set_add_def)

lemma Set_add_distinct [simp]: "distinct xs \<Longrightarrow> distinct (Set_add x xs)"
  by (auto simp: Set_add_def)

lemma Set_add_nonempty [simp]: "Set_add x xs \<noteq> []"
  by (auto simp: Set_add_def)

lemma Set_delete_set [simp]: "set (Set_delete x xs) = set xs - {x}"
  by (auto simp: Set_delete_def)

lemma Set_delete_distinct [simp]: "distinct xs \<Longrightarrow> distinct (Set_delete x xs)"
  by (auto simp: Set_delete_def distinct_removeAll)



lemma Set_delete_empty: "Set_delete x xs = [] \<longleftrightarrow> set xs \<subseteq> {x}"
  by (induction xs) (auto simp: Set_delete_def)


























section \<open>The dispatch pipeline\<close>

lemma appended_Nil [simp]: "appended ws [] s = sockets s"
  by (simp add: appended_def)

lemma sockets_sendMessage:
  "sockets (sendMessage ws m s) = appended ws (if readyState (sockets s ws) = OPEN then [m] else []) s"
  by (simp add: sendMessage_def appended_def)

lemma sendMessage_fields [simp]:
  "pendingFetches (sendMessage ws m s) = pendingFetches s"
  "clientPendingFetches (sendMessage ws m s) = clientPendingFetches s"
  "timers (sendMessage ws m s) = timers s"
  "settled (sendMessage ws m s) = settled s"
  "nextPromise (sendMessage ws m s) = nextPromise s"
  "uuids (sendMessage ws m s) = uuids s"
  "uuidCount (sendMessage ws m s) = uuidCount s"
  "clients (sendMessage ws m s) = clients s"
  "priv_groups (sendMessage ws m s) = priv_groups s"
  "app (sendMessage ws m s) = app s"
  "invoked (sendMessage ws m s) = invoked s"
  "middlewares (sendMessage ws m s) = middlewares s"
  "eventHandlers (sendMessage ws m s) = eventHandlers s"
  "maxMessageSize (sendMessage ws m s) = maxMessageSize s"
  "fetchConfig (sendMessage ws m s) = fetchConfig s"
  "readyState (sockets (sendMessage ws m s) w) = readyState (sockets s w)"
  by (simp_all add: sendMessage_def)

lemma pipe_rel_refl: "pipe_rel ws s (False, s)"
  by (simp add: pipe_rel_def)

lemma pipe_rel_send:
  assumes "pipe_rel ws s0 (False, s)"
  shows "pipe_rel ws s0 (True, sendMessage ws m s)"
proof -
  from assms have s: "sockets s = sockets s0"
    by (auto simp: pipe_rel_def)
  have "sockets (sendMessage ws m s)
      = appended ws (if readyState (sockets s0 ws) = OPEN then [m] else []) s0"
    using s by (simp add: sockets_sendMessage appended_def)
  then show ?thesis
    unfolding pipe_rel_def by (intro exI[of _ "if readyState (sockets s0 ws) = OPEN then [m] else []"]) simp
qed

lemma pipe_rel_reply:
  assumes "pipe_rel ws s0 rs"
  shows "pipe_rel ws s0 (reply ws f a rs)"
proof (cases rs)
  case (Pair replied s)
  show ?thesis
  proof (cases replied)
    case True
    with Pair assms show ?thesis by (simp add: reply_def)
  next
    case False
    with Pair assms show ?thesis
      by (simp add: reply_def pipe_rel_send)
  qed
qed

lemma pipe_rel_replies:
  "pipe_rel ws s0 rs \<Longrightarrow> pipe_rel ws s0 (foldl (\<lambda>rs call. reply ws f call rs) rs calls)"
  by (induction calls arbitrary: rs) (simp_all add: pipe_rel_reply)

lemma pipe_rel_invoke:
  assumes "pipe_rel ws s0 rs"
  shows "pipe_rel ws s0 (snd (invoke ws f args h rs))"
proof (cases rs)
  case (Pair replied s)
  have "pipe_rel ws s0 (replied, s\<lparr> app := app_after (h args (app s)),
          invoked := invoked s @ [length (reply_calls (h args (app s)))] \<rparr>)"
    using assms Pair by (simp add: pipe_rel_def)
  then show ?thesis
    using Pair by (simp add: invoke_def Let_def pipe_rel_replies)
qed

lemma pipe_rel_run_chain:
  "pipe_rel ws s0 rs \<Longrightarrow> pipe_rel ws s0 (snd (run_chain e ws f args hs rs))"
proof (induction hs arbitrary: rs)
  case Nil
  then show ?case by simp
next
  case (Cons h hs)
  obtain t rs1 where inv: "invoke ws f args h rs = (t, rs1)"
    by (cases "invoke ws f args h rs")
  have r1: "pipe_rel ws s0 rs1"
    using pipe_rel_invoke[OF Cons.prems, of f args h] inv by simp
  show ?case
    using Cons.prems Cons.IH[OF r1] r1 inv
    by (auto simp: pipe_rel_reply split: bool.splits)
qed

lemma only_io_refl: "only_io s s"
  by (simp add: only_io_def)

lemma only_io_trans: "only_io s t \<Longrightarrow> only_io t u \<Longrightarrow> only_io s u"
  by (simp add: only_io_def)

lemma only_io_sendMessage: "only_io s (sendMessage ws m s)"
  by (simp add: only_io_def)

lemma only_io_reply: "only_io s (snd rs) \<Longrightarrow> only_io s (snd (reply ws f a rs))"
  by (cases rs) (auto simp: reply_def intro: only_io_trans only_io_sendMessage)

lemma only_io_replies:
  "only_io s (snd rs) \<Longrightarrow> only_io s (snd (foldl (\<lambda>rs call. reply ws f call rs) rs calls))"
  by (induction calls arbitrary: rs) (simp_all add: only_io_reply)

lemma only_io_invoke: "only_io s (snd rs) \<Longrightarrow> only_io s (snd (snd (invoke ws f args h rs)))"
proof (cases rs)
  case (Pair replied t)
  assume "only_io s (snd rs)"
  with Pair have "only_io s (t\<lparr> app := app_after (h args (app t)),
          invoked := invoked t @ [length (reply_calls (h args (app t)))] \<rparr>)"
    by (simp add: only_io_def)
  then show ?thesis
    using Pair by (simp add: invoke_def Let_def only_io_replies)
qed

lemma only_io_run_chain:
  "only_io s (snd rs) \<Longrightarrow> only_io s (snd (snd (run_chain e ws f args hs rs)))"
proof (induction hs arbitrary: rs)
  case Nil
  then show ?case by simp
next
  case (Cons h hs)
  obtain t rs1 where inv: "invoke ws f args h rs = (t, rs1)"
    by (cases "invoke ws f args h rs")
  have r1: "only_io s (snd rs1)"
    using only_io_invoke[OF Cons.prems, of ws f args h] inv by simp
  show ?case
    using Cons.prems Cons.IH[OF r1] r1 inv
    by (auto simp: only_io_reply split: bool.splits)
qed

lemma trace_rel_refl: "trace_rel s (False, s)"
  by (simp add: trace_rel_def)

lemma reply_fst [simp]: "fst (reply ws f a rs)"
  by (cases rs) (simp add: reply_def)

lemma reply_invoked [simp]: "invoked (snd (reply ws f a rs)) = invoked (snd rs)"
  by (cases rs) (simp add: reply_def)

lemma reply_replied [simp]: "reply ws f a (True, s) = (True, s)"
  by (simp add: reply_def)

lemma replies_fst: "fst (foldl (\<lambda>rs call. reply ws f call rs) rs calls) \<longleftrightarrow> fst rs \<or> calls \<noteq> []"
  by (induction calls arbitrary: rs) auto

lemma replies_invoked [simp]:
  "invoked (snd (foldl (\<lambda>rs call. reply ws f call rs) rs calls)) = invoked (snd rs)"
  by (induction calls arbitrary: rs) auto

lemma trace_rel_reply: "trace_rel s0 rs \<Longrightarrow> trace_rel s0 (reply ws f a rs)"
  by (auto simp: trace_rel_def)

lemma trace_rel_invoke:
  assumes "trace_rel s0 rs" and "\<not> fst rs"
  shows "trace_rel s0 (snd (invoke ws f args h rs))"
proof (cases rs)
  case (Pair replied s)
  from assms Pair obtain ns where ns: "invoked s = invoked s0 @ ns" "list_all (\<lambda>n. n = 0) ns"
    by (auto simp: trace_rel_def)
  let ?n = "length (reply_calls (h args (app s)))"
  show ?thesis
    unfolding trace_rel_def
    using Pair ns assms(2)
    by (intro exI[of _ "ns @ [?n]"]) (simp add: invoke_def Let_def replies_fst)
qed

lemma trace_rel_run_chain:
  "trace_rel s0 rs \<Longrightarrow> trace_rel s0 (snd (run_chain e ws f args hs rs))"
proof (induction hs arbitrary: rs)
  case Nil
  then show ?case by simp
next
  case (Cons h hs)
  show ?case
  proof (cases "fst rs")
    case True
    with Cons.prems show ?thesis by simp
  next
    case False
    obtain t rs1 where inv: "invoke ws f args h rs = (t, rs1)"
      by (cases "invoke ws f args h rs")
    have r1: "trace_rel s0 rs1"
      using trace_rel_invoke[OF Cons.prems False, of ws f args h] inv by simp
    show ?thesis
      using False Cons.IH[OF r1] r1 inv
      by (auto simp: trace_rel_reply split: bool.splits)
  qed
qed

lemma event_branch_closed:
  assumes start: "Q (False, s)"
    and chain: "\<And>rs e hs. Q rs \<Longrightarrow> Q (snd (run_chain e ws fetchId
        \<lparr> arg_body = body, arg_user = user, arg_fetchId = fetchId,
          arg_header = header, arg_event = event \<rparr> hs rs))"
    and rep: "\<And>rs a. Q rs \<Longrightarrow> Q (reply ws fetchId a rs)"
    and weaken: "\<And>r t. Q (r, t) \<Longrightarrow> Q (True, t)"
  shows "Q (True, event_branch ws user event fetchId body header s)"
proof -
  let ?args = "\<lparr> arg_body = body, arg_user = user, arg_fetchId = fetchId,
                   arg_header = header, arg_event = event \<rparr>"
  define m1 where "m1 = ''Middleware error''"
  define m2 where "m2 = ''Handler error''"
  define m3 where "m3 = [Message 404 JNull (''No handler for event: '' @ event)]"
  define c1 where "c1 = run_chain m1 ws fetchId ?args (middlewares s) (False, s)"
  obtain e1 r1 s1 where c1: "c1 = (e1, (r1, s1))"
    by (cases c1) auto
  have q1: "Q (r1, s1)"
    using chain[OF start, of m1 "middlewares s"] c1 unfolding c1_def by simp
  define hs where "hs = (case eventHandlers s1 event of None \<Rightarrow> [] | Some hs \<Rightarrow> hs)"
  define c2 where "c2 = run_chain m2 ws fetchId ?args hs (r1, s1)"
  obtain e2 r2 s2 where c2: "c2 = (e2, (r2, s2))"
    by (cases c2) auto
  have q2: "Q (r2, s2)"
    using chain[OF q1, of m2 hs] c2 unfolding c2_def by simp
  define c3 where "c3 = reply ws fetchId m3 (r2, s2)"
  have "fst c3"
    unfolding c3_def by simp
  then obtain s3 where s3: "c3 = (True, s3)"
    by (cases c3) auto
  have q3: "Q (True, s3)"
    using rep[OF q2, of m3] s3 unfolding c3_def by simp
  have eb: "event_branch ws user event fetchId body header s =
      (case c1 of (Aborted, rs) \<Rightarrow> snd rs
       | (Completed, (replied, s1)) \<Rightarrow>
           if \<not> replied then
             (case run_chain m2 ws fetchId ?args
                     (case eventHandlers s1 event of None \<Rightarrow> [] | Some hs \<Rightarrow> hs) (replied, s1) of
                (Aborted, rs) \<Rightarrow> snd rs
              | (Completed, (replied2, s2)) \<Rightarrow>
                  if \<not> replied2 \<and> fetchId \<noteq> []
                  then snd (reply ws fetchId m3 (replied2, s2))
                  else s2)
           else s1)"
    unfolding c1_def m1_def m2_def m3_def event_branch_def Let_def ..
  have "event_branch ws user event fetchId body header s = s1
      \<or> event_branch ws user event fetchId body header s = s2
      \<or> event_branch ws user event fetchId body header s = s3"
  proof (cases e1)
    case Aborted
    then show ?thesis unfolding eb c1 by simp
  next
    case Completed
    show ?thesis
    proof (cases r1)
      case True
      then show ?thesis unfolding eb c1 using Completed by simp
    next
      case False
      have eb2: "event_branch ws user event fetchId body header s =
        (case c2 of (Aborted, rs) \<Rightarrow> snd rs
              | (Completed, (replied2, s2)) \<Rightarrow>
                  if \<not> replied2 \<and> fetchId \<noteq> []
                  then snd (reply ws fetchId m3 (replied2, s2))
                  else s2)"
        unfolding eb c1 c2_def hs_def using Completed False by simp
      show ?thesis
        unfolding eb2 c2 using s3 unfolding c3_def by (cases e2) auto
    qed
  qed
  then show ?thesis
    using weaken[OF q1] weaken[OF q2] q3 by auto
qed

lemma event_branch_rel:
  "pipe_rel ws s (True, event_branch ws user event fetchId body header s)"
  "trace_rel s (True, event_branch ws user event fetchId body header s)"
  "only_io s (event_branch ws user event fetchId body header s)"
proof -
  show "pipe_rel ws s (True, event_branch ws user event fetchId body header s)"
  proof (rule event_branch_closed[where Q = "pipe_rel ws s"])
    show "pipe_rel ws s (False, s)" by (rule pipe_rel_refl)
  next
    fix rs e hs args assume "pipe_rel ws s rs"
    then show "pipe_rel ws s (snd (run_chain e ws fetchId args hs rs))" by (rule pipe_rel_run_chain)
  next
    fix rs a assume "pipe_rel ws s rs"
    then show "pipe_rel ws s (reply ws fetchId a rs)" by (rule pipe_rel_reply)
  next
    fix r t assume "pipe_rel ws s (r, t)"
    then show "pipe_rel ws s (True, t)" by (auto simp: pipe_rel_def)
  qed
  show "trace_rel s (True, event_branch ws user event fetchId body header s)"
  proof (rule event_branch_closed[where Q = "trace_rel s"])
    show "trace_rel s (False, s)" by (rule trace_rel_refl)
  next
    fix rs e hs args assume "trace_rel s rs"
    then show "trace_rel s (snd (run_chain e ws fetchId args hs rs))" by (rule trace_rel_run_chain)
  next
    fix rs a assume "trace_rel s rs"
    then show "trace_rel s (reply ws fetchId a rs)" by (rule trace_rel_reply)
  next
    fix r t assume "trace_rel s (r, t)"
    then show "trace_rel s (True, t)" by (auto simp: trace_rel_def)
  qed
  have "(\<lambda>rs. only_io s (snd rs)) (True, event_branch ws user event fetchId body header s)"
  proof (rule event_branch_closed[where Q = "\<lambda>rs. only_io s (snd rs)"])
    show "only_io s (snd (False, s))" by (simp add: only_io_refl)
  next
    fix rs :: "bool \<times> 'a MasSocketServer" and e hs args assume "only_io s (snd rs)"
    then show "only_io s (snd (snd (run_chain e ws fetchId args hs rs)))" by (rule only_io_run_chain)
  next
    fix rs :: "bool \<times> 'a MasSocketServer" and a assume "only_io s (snd rs)"
    then show "only_io s (snd (reply ws fetchId a rs))" by (rule only_io_reply)
  next
    fix r :: bool and t :: "'a MasSocketServer" assume "only_io s (snd (r, t))"
    then show "only_io s (snd (True, t))" by simp
  qed
  then show "only_io s (event_branch ws user event fetchId body header s)"
    by simp
qed

lemma handleMessage_cases:
  obtains (send) m where "state_of (handleMessage P ws user raw s) = sendMessage ws m s"
  | (same) "state_of (handleMessage P ws user raw s) = s"
  | (reply) f b where "state_of (handleMessage P ws user raw s) = reply_branch f b s"
  | (event) ev f b h where "state_of (handleMessage P ws user raw s) = event_branch ws user ev f b h s"
proof (cases "length raw > maxMessageSize s")
  case True
  then show ?thesis using send by (simp add: handleMessage_def Let_def)
next
  case False
  show ?thesis
  proof (cases "P raw")
    case SyntaxError
    with False show ?thesis using send by (simp add: handleMessage_def Let_def)
  next
    case ParsedNull
    with False show ?thesis using same by (simp add: handleMessage_def Let_def)
  next
    case (Parsed message)
    let ?f = "case fetchId' message of None \<Rightarrow> [] | Some f \<Rightarrow> f"
    let ?h = "case header' message of None \<Rightarrow> [] | Some h \<Rightarrow> h"
    have eq: "state_of (handleMessage P ws user raw s) =
        (if type' message = ''reply'' \<and> ?f \<noteq> [] then reply_branch ?f (body' message) s
         else case event' message of None \<Rightarrow> s
              | Some ev \<Rightarrow> if type' message = ''event'' \<and> ev \<noteq> []
                          then event_branch ws user ev ?f (body' message) ?h s else s)"
      using False Parsed by (simp add: handleMessage_def Let_def split: option.splits)
    consider "state_of (handleMessage P ws user raw s) = reply_branch ?f (body' message) s"
      | "state_of (handleMessage P ws user raw s) = s"
      | ev where "state_of (handleMessage P ws user raw s) = event_branch ws user ev ?f (body' message) ?h s"
      unfolding eq
      by (cases "type' message = ''reply''"; cases "?f = []"; cases "event' message";
          cases "type' message = ''event''"; cases "the (event' message) = []") auto
    then show ?thesis
      using reply same event by cases blast+
  qed
qed

lemma reply_branch_io [simp]:
  "sockets (reply_branch f b s) = sockets s"
  "invoked (reply_branch f b s) = invoked s"
  "app (reply_branch f b s) = app s"
  by (simp_all add: reply_branch_def pending_resolve_def settle_def clearTimeout_def
      dropReverseIndex_def Let_def split: option.splits)

text \<open>
  C4.  For every inbound message, hence for every event envelope, the frames sent to
  the sender's socket grow by at most one and no other socket changes.  In the
  trace of the invocations made for the envelope, every invocation but the last
  called \<open>reply\<close> zero times: once a middleware or handler has called \<open>reply\<close>, no
  later middleware and no handler is invoked.  A call of \<open>reply\<close> made after the
  first one changes nothing.
\<close>

theorem at_most_one_reply_per_envelope:
  "\<exists>fs ns. length fs \<le> 1
     \<and> sockets (state_of (handleMessage JSON_parse ws user rawMessage s))
         = (sockets s)(ws := (sockets s ws)\<lparr> sent := sent (sockets s ws) @ fs \<rparr>)
     \<and> invoked (state_of (handleMessage JSON_parse ws user rawMessage s)) = invoked s @ ns
     \<and> list_all (\<lambda>n. n = 0) (butlast ns)
     \<and> reply ws fetchId arguments (True, t) = (True, t)"
proof (cases rule: handleMessage_cases[of JSON_parse ws user rawMessage s])
  case (send m)
  show ?thesis
    by (rule exI[of _ "if readyState (sockets s ws) = OPEN then [m] else []"], rule exI[of _ "[]"])
       (simp add: send sendMessage_def)
next
  case same
  show ?thesis
    by (rule exI[of _ "[]"], rule exI[of _ "[]"]) (simp add: same)
next
  case (reply f b)
  show ?thesis
    by (rule exI[of _ "[]"], rule exI[of _ "[]"]) (simp add: reply)
next
  case (event ev f b h)
  from event_branch_rel(1)[of ws s user ev f b h]
  obtain fs where fs: "length fs \<le> 1" "sockets (event_branch ws user ev f b h s) = appended ws fs s"
    by (auto simp: pipe_rel_def)
  from event_branch_rel(2)[of s ws user ev f b h]
  obtain ns where ns: "invoked (event_branch ws user ev f b h s) = invoked s @ ns"
      "list_all (\<lambda>n. n = 0) (butlast ns)"
    by (auto simp: trace_rel_def)
  show ?thesis
    using fs ns by (intro exI[of _ fs] exI[of _ ns]) (simp add: event appended_def)
qed

lemma guarded_server_facts:
  "middlewares guarded_server = [reject_all]"
  "eventHandlers guarded_server ''hit'' = Some [count_hits]"
  "app guarded_server = 0"
  "invoked guarded_server = []"
  "maxMessageSize guarded_server = 1024 * 1024"
  "readyState (sockets guarded_server 0) = OPEN"
  by (simp_all add: guarded_server_def on_def use_def two_peers_def onConnection_def randomUUID_def
      sendMessage_def initial_def Let_def)

lemma guarded_server_run:
  "handleMessage (\<lambda>_. Parsed hit_message) 0 peer_c ''{}'' guarded_server
     = Returned (sendMessage 0 \<lparr> type' = ''reply'', event' = None, fetchId' = Some ''f1'',
                   body' = JNull, header' = None \<rparr>
                 (guarded_server\<lparr> invoked := [1] \<rparr>))"
  by (simp add: handleMessage_def event_branch_def hit_message_def guarded_server_facts Let_def
      invoke_def reject_all_def reply_def)

theorem at_most_one_reply_per_envelope_witness:
  "app (state_of (handleMessage (\<lambda>_. Parsed hit_message) 0 peer_c ''{}'' guarded_server)) = 0
   \<and> invoked (state_of (handleMessage (\<lambda>_. Parsed hit_message) 0 peer_c ''{}'' guarded_server)) = [1]
   \<and> length (sent (sockets (state_of (handleMessage (\<lambda>_. Parsed hit_message) 0 peer_c ''{}'' guarded_server)) 0))
       = Suc (length (sent (sockets guarded_server 0)))"
  using at_most_one_reply_per_envelope[of "\<lambda>_. Parsed hit_message" 0 peer_c "''{}''" guarded_server]
  by (simp add: guarded_server_run sendMessage_def guarded_server_facts)

text \<open>
  C9.  The code at the call \<open>reply(null, 401, 'Unauthorized')\<close> of a middleware: the
  frame that reaches the socket has the body \<open>null\<close>, not the message
  \<open>{ code: 401, data: null, msg: 'Unauthorized' }\<close>; the second and third argument
  are dropped.
\<close>

theorem reply_drops_code_and_msg:
  "sent (sockets (state_of (handleMessage (\<lambda>_. Parsed hit_message) 0 peer_c ''{}'' guarded_server)) 0)
     = sent (sockets guarded_server 0) @
         [\<lparr> type' = ''reply'', event' = None, fetchId' = Some ''f1'', body' = JNull, header' = None \<rparr>]
   \<and> JNull \<noteq> Message 401 JNull ''Unauthorized''"
  by (simp add: guarded_server_run sendMessage_def guarded_server_facts Message_def)

text \<open>
  C6.  For every raw message longer than \<open>maxMessageSize\<close>, \<open>handleMessage\<close> returns
  after handing \<open>sendMessage\<close> the reply with code 413 and doing nothing else: the
  result is the same for every parser, so the message is not parsed; no pending
  request, timer or settlement changes; no middleware or handler is invoked and the
  application state is unchanged.  On an open socket exactly that reply is appended
  to the frames sent.
\<close>

theorem oversized_message_gets_413:
  assumes "length rawMessage > maxMessageSize s"
  shows "handleMessage JSON_parse ws user rawMessage s
           = Returned (sendMessage ws
               \<lparr> type' = ''reply'', event' = None, fetchId' = None,
                 body' = Message 413 JNull
                   (''Message too large. Maximum size is '' @ string_of_nat (maxMessageSize s) @ '' bytes''),
                 header' = None \<rparr> s)
         \<and> handleMessage other_parse ws user rawMessage s = handleMessage JSON_parse ws user rawMessage s
         \<and> pendingFetches (state_of (handleMessage JSON_parse ws user rawMessage s)) = pendingFetches s
         \<and> clientPendingFetches (state_of (handleMessage JSON_parse ws user rawMessage s)) = clientPendingFetches s
         \<and> timers (state_of (handleMessage JSON_parse ws user rawMessage s)) = timers s
         \<and> settled (state_of (handleMessage JSON_parse ws user rawMessage s)) = settled s
         \<and> invoked (state_of (handleMessage JSON_parse ws user rawMessage s)) = invoked s
         \<and> app (state_of (handleMessage JSON_parse ws user rawMessage s)) = app s
         \<and> (readyState (sockets s ws) = OPEN \<longrightarrow>
              sent (sockets (state_of (handleMessage JSON_parse ws user rawMessage s)) ws)
                = sent (sockets s ws) @
                    [\<lparr> type' = ''reply'', event' = None, fetchId' = None,
                       body' = Message 413 JNull
                         (''Message too large. Maximum size is '' @ string_of_nat (maxMessageSize s) @ '' bytes''),
                       header' = None \<rparr>])"
  using assms by (simp add: handleMessage_def Let_def sendMessage_def)

theorem oversized_message_gets_413_witness:
  "length ''hello'' > maxMessageSize (two_peers\<lparr> maxMessageSize := 4 \<rparr>)
   \<and> readyState (sockets (two_peers\<lparr> maxMessageSize := 4 \<rparr>) 0) = OPEN
   \<and> sent (sockets (state_of (handleMessage (\<lambda>_. Parsed hit_message) 0 peer_c ''hello''
             (two_peers\<lparr> maxMessageSize := 4 \<rparr>))) 0)
       = sent (sockets (two_peers\<lparr> maxMessageSize := 4 \<rparr>) 0) @
           [\<lparr> type' = ''reply'', event' = None, fetchId' = None,
              body' = Message 413 JNull ''Message too large. Maximum size is 4 bytes'',
              header' = None \<rparr>]"
  using oversized_message_gets_413[of "two_peers\<lparr> maxMessageSize := 4 \<rparr>" "''hello''"
      "\<lambda>_. Parsed hit_message" 0 peer_c "\<lambda>_. SyntaxError"]
  by (simp add: two_peers_def onConnection_def randomUUID_def sendMessage_def initial_def Let_def
      string_of_nat.simps digit_def)

lemma run_chain_silent:
  assumes "run_chain e ws f args hs (False, s) = (c, (False, t))"
  shows "sockets t = sockets s"
proof -
  have "pipe_rel ws s (snd (run_chain e ws f args hs (False, s)))"
    by (rule pipe_rel_run_chain[OF pipe_rel_refl])
  with assms show ?thesis
    by (auto simp: pipe_rel_def)
qed

text \<open>
  C5, as the code has it.  For every event envelope for which the middleware loop
  runs to its end and then the handler loop runs to its end, no middleware and no
  handler having replied or thrown: if the envelope carries a non-empty \<open>fetchId\<close>,
  the one frame handed to \<open>sendMessage\<close> is the reply with code 404 and the message
  \<open>No handler for event: <event>\<close> (on an open socket it is appended to the frames
  sent, and nothing else is); if it carries none, no frame is sent at all.
\<close>

theorem unmatched_event_gets_404:
  assumes size: "\<not> length rawMessage > maxMessageSize s"
    and parse: "JSON_parse rawMessage = Parsed message"
    and kind: "type' message = ''event''"
    and name: "event' message = Some event" "event \<noteq> ''''"
    and fid: "fetchId = (case fetchId' message of None \<Rightarrow> '''' | Some f \<Rightarrow> f)"
    and args: "args = \<lparr> arg_body = body' message, arg_user = user, arg_fetchId = fetchId,
                         arg_header = (case header' message of None \<Rightarrow> [] | Some h \<Rightarrow> h),
                         arg_event = event \<rparr>"
    and mws: "run_chain ''Middleware error'' ws fetchId args (middlewares s) (False, s)
                = (Completed, (False, s1))"
    and hds: "run_chain ''Handler error'' ws fetchId args
                (case eventHandlers s1 event of None \<Rightarrow> [] | Some hs \<Rightarrow> hs) (False, s1)
                = (Completed, (False, s2))"
  shows "handleMessage JSON_parse ws user rawMessage s
           = Returned (if fetchId \<noteq> ''''
                       then sendMessage ws
                              \<lparr> type' = ''reply'', event' = None, fetchId' = Some fetchId,
                                body' = Message 404 JNull (''No handler for event: '' @ event),
                                header' = None \<rparr> s2
                       else s2)
         \<and> sockets s2 = sockets s
         \<and> (fetchId = '''' \<longrightarrow>
              sockets (state_of (handleMessage JSON_parse ws user rawMessage s)) = sockets s)
         \<and> (fetchId \<noteq> '''' \<and> readyState (sockets s ws) = OPEN \<longrightarrow>
              sent (sockets (state_of (handleMessage JSON_parse ws user rawMessage s)) ws)
                = sent (sockets s ws) @
                    [\<lparr> type' = ''reply'', event' = None, fetchId' = Some fetchId,
                       body' = Message 404 JNull (''No handler for event: '' @ event),
                       header' = None \<rparr>])"
proof -
  have s1: "sockets s1 = sockets s"
    using run_chain_silent[OF mws] .
  have s2: "sockets s2 = sockets s"
    using run_chain_silent[OF hds] s1 by simp
  have run: "handleMessage JSON_parse ws user rawMessage s
           = Returned (if fetchId \<noteq> ''''
                       then sendMessage ws
                              \<lparr> type' = ''reply'', event' = None, fetchId' = Some fetchId,
                                body' = Message 404 JNull (''No handler for event: '' @ event),
                                header' = None \<rparr> s2
                       else s2)"
    using size parse kind name mws hds
    unfolding fid args
    by (simp add: handleMessage_def event_branch_def Let_def reply_def)
  show ?thesis
    unfolding run using s2 by (simp add: sendMessage_def)
qed

lemma two_peers_io:
  "middlewares two_peers = []"
  "eventHandlers two_peers = Map.empty"
  "maxMessageSize two_peers = 1024 * 1024"
  "readyState (sockets two_peers 0) = OPEN"
  by (simp_all add: two_peers_def onConnection_def randomUUID_def sendMessage_def initial_def Let_def)

theorem unmatched_event_gets_404_witness:
  "sent (sockets (state_of (handleMessage (\<lambda>_. Parsed (ping_message (Some ''f1''))) 0 peer_c ''{}'' two_peers)) 0)
     = sent (sockets two_peers 0) @
         [\<lparr> type' = ''reply'', event' = None, fetchId' = Some ''f1'',
            body' = Message 404 JNull ''No handler for event: ping'', header' = None \<rparr>]
   \<and> sockets (state_of (handleMessage (\<lambda>_. Parsed (ping_message None)) 0 peer_c ''{}'' two_peers))
       = sockets two_peers"
  using unmatched_event_gets_404[where rawMessage = "''{}''" and s = two_peers
      and JSON_parse = "\<lambda>_. Parsed (ping_message (Some ''f1''))"
      and message = "ping_message (Some ''f1'')" and event = "''ping''" and fetchId = "''f1''"
      and user = peer_c and ws = 0 and ?s1.0 = two_peers and ?s2.0 = two_peers]
    unmatched_event_gets_404[where rawMessage = "''{}''" and s = two_peers
      and JSON_parse = "\<lambda>_. Parsed (ping_message None)"
      and message = "ping_message None" and event = "''ping''" and fetchId = "[]"
      and user = peer_c and ws = 0 and ?s1.0 = two_peers and ?s2.0 = two_peers]
  by (simp add: ping_message_def two_peers_io sendMessage_def)

lemma faulty_server_facts:
  "middlewares faulty_server = []"
  "eventHandlers faulty_server ''ping'' = Some [failing]"
  "maxMessageSize faulty_server = 1024 * 1024"
  "sockets faulty_server = sockets two_peers"
  by (simp_all add: faulty_server_def on_def two_peers_io)

text \<open>
  C5 as written fails for a handler that throws before it has replied: no middleware
  and no handler has replied and the envelope carries no \<open>fetchId\<close>, yet the \<open>catch\<close>
  block sends a reply, with code 500; with a \<open>fetchId\<close> the one reply has code 500,
  not 404.
\<close>

theorem throwing_handler_gets_500_counterexample:
  "(\<forall>args a. reply_calls (failing args a) = [])
   \<and> sent (sockets (state_of (handleMessage (\<lambda>_. Parsed (ping_message None)) 0 peer_c ''{}'' faulty_server)) 0)
       = sent (sockets faulty_server 0) @
           [\<lparr> type' = ''reply'', event' = None, fetchId' = Some [],
              body' = Message 500 JNull ''Handler error'', header' = None \<rparr>]
   \<and> sent (sockets (state_of (handleMessage (\<lambda>_. Parsed (ping_message (Some ''f1''))) 0 peer_c ''{}'' faulty_server)) 0)
       = sent (sockets faulty_server 0) @
           [\<lparr> type' = ''reply'', event' = None, fetchId' = Some ''f1'',
              body' = Message 500 JNull ''Handler error'', header' = None \<rparr>]"
  by (simp add: handleMessage_def event_branch_def Let_def ping_message_def faulty_server_facts
      invoke_def reply_def failing_def sockets_sendMessage appended_def two_peers_io)

section \<open>The pending-request tracker\<close>

lemma same_tracker_refl [simp]: "same_tracker s s"
  by (simp add: same_tracker_def)

lemma same_tracker_covers:
  "same_tracker s t \<Longrightarrow> reverse_index_covers s \<Longrightarrow> reverse_index_covers t"
  by (simp add: same_tracker_def reverse_index_covers_def)

lemma same_tracker_inv:
  "same_tracker s t \<Longrightarrow> uuidCount s \<le> uuidCount t \<Longrightarrow> tracker_inv s \<Longrightarrow> tracker_inv t"
  unfolding same_tracker_def tracker_inv_def
  by (auto, meson less_le_trans)

lemma covers_initial: "reverse_index_covers (initial us a)"
  by (simp add: reverse_index_covers_def initial_def)

lemma inv_initial: "inj us \<Longrightarrow> tracker_inv (initial us a)"
  by (simp add: tracker_inv_def initial_def)

lemma tracker_invI:
  assumes "inj (uuids s)"
    and "\<And>f p. pendingFetches s f = Some p \<Longrightarrow> \<exists>w. timers s (promise' p) = Some (f, w)"
    and "\<And>q f w. timers s q = Some (f, w) \<Longrightarrow> \<exists>p. pendingFetches s f = Some p \<and> promise' p = q"
    and "\<And>q f w. timers s q = Some (f, w) \<Longrightarrow> q < nextPromise s"
    and "\<And>q f w. timers s q = Some (f, w) \<Longrightarrow> \<exists>n < uuidCount s. f = uuids s n"
    and "\<And>q out. (q, out) \<in> set (settled s) \<Longrightarrow> timers s q = None"
    and "\<And>q out. (q, out) \<in> set (settled s) \<Longrightarrow> q < nextPromise s"
    and "distinct (map fst (settled s))"
    and "\<And>q. q < nextPromise s \<Longrightarrow> q \<in> fst ` set (settled s) \<or> timers s q \<noteq> None"
  shows "tracker_inv s"
  unfolding tracker_inv_def using assms by blast

lemma inv_inj: "tracker_inv s \<Longrightarrow> inj (uuids s)"
  by (simp add: tracker_inv_def)

lemma inv_pending:
  "tracker_inv s \<Longrightarrow> pendingFetches s f = Some p \<Longrightarrow> \<exists>w. timers s (promise' p) = Some (f, w)"
  unfolding tracker_inv_def by blast

lemma inv_timer:
  "tracker_inv s \<Longrightarrow> timers s q = Some (f, w) \<Longrightarrow> \<exists>p. pendingFetches s f = Some p \<and> promise' p = q"
  unfolding tracker_inv_def by blast

lemma inv_timer_bound:
  "tracker_inv s \<Longrightarrow> timers s q = Some (f, w) \<Longrightarrow> q < nextPromise s"
  unfolding tracker_inv_def by blast

lemma inv_timer_uuid:
  "tracker_inv s \<Longrightarrow> timers s q = Some (f, w) \<Longrightarrow> \<exists>n < uuidCount s. f = uuids s n"
  unfolding tracker_inv_def by blast

lemma inv_settled:
  "tracker_inv s \<Longrightarrow> (q, out) \<in> set (settled s) \<Longrightarrow> timers s q = None"
  unfolding tracker_inv_def by blast

lemma inv_settled_bound:
  "tracker_inv s \<Longrightarrow> (q, out) \<in> set (settled s) \<Longrightarrow> q < nextPromise s"
  unfolding tracker_inv_def by blast

lemma inv_distinct: "tracker_inv s \<Longrightarrow> distinct (map fst (settled s))"
  by (simp add: tracker_inv_def)

lemma inv_created:
  "tracker_inv s \<Longrightarrow> q < nextPromise s \<Longrightarrow> q \<in> fst ` set (settled s) \<or> timers s q \<noteq> None"
  unfolding tracker_inv_def by blast

lemma inv_fresh_promise:
  assumes "tracker_inv s"
  shows "timers s (nextPromise s) = None" and "nextPromise s \<notin> fst ` set (settled s)"
proof -
  show "timers s (nextPromise s) = None"
  proof (cases "timers s (nextPromise s)")
    case (Some fw)
    then show ?thesis using inv_timer_bound[OF assms, of "nextPromise s" "fst fw" "snd fw"] by simp
  qed simp
  show "nextPromise s \<notin> fst ` set (settled s)"
    using inv_settled_bound[OF assms, of "nextPromise s"] by force
qed

lemma inv_fresh_uuid:
  assumes "tracker_inv s"
  shows "pendingFetches s (uuids s (uuidCount s)) = None"
proof (cases "pendingFetches s (uuids s (uuidCount s))")
  case (Some p)
  then obtain w where "timers s (promise' p) = Some (uuids s (uuidCount s), w)"
    using inv_pending[OF assms] by blast
  then obtain n where "n < uuidCount s" "uuids s (uuidCount s) = uuids s n"
    using inv_timer_uuid[OF assms] by blast
  then show ?thesis
    using inv_inj[OF assms] by (auto dest: injD)
qed simp

text \<open>Three shapes of change, and the invariant under each.\<close>

lemma inv_settle_new:
  assumes inv: "tracker_inv s"
    and "pendingFetches t = pendingFetches s" "timers t = timers s"
    and "settled t = settled s @ [(nextPromise s, out)]"
    and "nextPromise t = Suc (nextPromise s)" "uuids t = uuids s" "uuidCount t = uuidCount s"
  shows "tracker_inv t"
proof (rule tracker_invI)
  show "inj (uuids t)" using inv_inj[OF inv] assms by simp
next
  fix f p assume "pendingFetches t f = Some p"
  then show "\<exists>w. timers t (promise' p) = Some (f, w)"
    using inv_pending[OF inv, of f p] assms by simp
next
  fix q f w assume "timers t q = Some (f, w)"
  then have a: "timers s q = Some (f, w)" using assms by simp
  show "\<exists>p. pendingFetches t f = Some p \<and> promise' p = q"
    using inv_timer[OF inv a] assms by simp
  show "q < nextPromise t"
    using inv_timer_bound[OF inv a] assms by simp
  show "\<exists>n<uuidCount t. f = uuids t n"
    using inv_timer_uuid[OF inv a] assms by simp
next
  fix q o' assume "(q, o') \<in> set (settled t)"
  then have "(q, o') \<in> set (settled s) \<or> q = nextPromise s"
    using assms by auto
  then show "timers t q = None" "q < nextPromise t"
    using inv_settled[OF inv, of q o'] inv_settled_bound[OF inv, of q o'] inv_fresh_promise[OF inv] assms
    by auto
next
  show "distinct (map fst (settled t))"
    using inv_distinct[OF inv] inv_fresh_promise(2)[OF inv] assms by simp
next
  fix q assume "q < nextPromise t"
  then have "q < nextPromise s \<or> q = nextPromise s" using assms by auto
  then show "q \<in> fst ` set (settled t) \<or> timers t q \<noteq> None"
    using inv_created[OF inv, of q] assms by auto
qed

lemma inv_register:
  assumes inv: "tracker_inv s"
    and pf: "pendingFetches t = (pendingFetches s)(uuids s (uuidCount s) \<mapsto> \<lparr> promise' = nextPromise s, clientId' = c \<rparr>)"
    and tm: "timers t = (timers s)(nextPromise s \<mapsto> (uuids s (uuidCount s), w))"
    and rest: "settled t = settled s" "nextPromise t = Suc (nextPromise s)"
      "uuids t = uuids s" "uuidCount t = Suc (uuidCount s)"
  shows "tracker_inv t"
proof (rule tracker_invI)
  show "inj (uuids t)" using inv_inj[OF inv] rest by simp
next
  fix f p assume a: "pendingFetches t f = Some p"
  show "\<exists>w. timers t (promise' p) = Some (f, w)"
  proof (cases "f = uuids s (uuidCount s)")
    case True
    with a pf tm show ?thesis by auto
  next
    case False
    with a pf have b: "pendingFetches s f = Some p" by simp
    then obtain w' where w': "timers s (promise' p) = Some (f, w')"
      using inv_pending[OF inv] by blast
    then have "promise' p \<noteq> nextPromise s"
      using inv_fresh_promise(1)[OF inv] by auto
    with w' tm show ?thesis by simp
  qed
next
  fix q f w' assume a: "timers t q = Some (f, w')"
  show "\<exists>p. pendingFetches t f = Some p \<and> promise' p = q"
  proof (cases "q = nextPromise s")
    case True
    with a pf tm show ?thesis by auto
  next
    case False
    with a tm have b: "timers s q = Some (f, w')" by simp
    then obtain p where p: "pendingFetches s f = Some p" "promise' p = q"
      using inv_timer[OF inv] by blast
    then have "f \<noteq> uuids s (uuidCount s)"
      using inv_fresh_uuid[OF inv] by auto
    with p pf show ?thesis by simp
  qed
  show "q < nextPromise t"
    using a tm rest inv_timer_bound[OF inv, of q f w'] by (cases "q = nextPromise s") auto
  show "\<exists>n<uuidCount t. f = uuids t n"
  proof (cases "q = nextPromise s")
    case True
    with a tm rest show ?thesis by auto
  next
    case False
    with a tm have "timers s q = Some (f, w')" by simp
    then obtain n where "n < uuidCount s" "f = uuids s n"
      using inv_timer_uuid[OF inv] by blast
    then show ?thesis
      using rest by (intro exI[of _ n]) simp
  qed
next
  fix q o' assume a: "(q, o') \<in> set (settled t)"
  then have b: "(q, o') \<in> set (settled s)" using rest by simp
  have "q \<noteq> nextPromise s"
    using inv_settled_bound[OF inv b] by simp
  then show "timers t q = None"
    using inv_settled[OF inv b] tm by simp
  show "q < nextPromise t"
    using inv_settled_bound[OF inv b] rest by simp
next
  show "distinct (map fst (settled t))"
    using inv_distinct[OF inv] rest by simp
next
  fix q assume "q < nextPromise t"
  then have "q < nextPromise s \<or> q = nextPromise s" using rest by auto
  then show "q \<in> fst ` set (settled t) \<or> timers t q \<noteq> None"
    using inv_created[OF inv, of q] rest tm by auto
qed

lemma inv_remove:
  assumes inv: "tracker_inv s"
    and entry: "pendingFetches s f = Some p"
    and pf: "pendingFetches t = (pendingFetches s)(f := None)"
    and tm: "timers t = (timers s)(promise' p := None)"
    and st: "settled t = settled s @ [(promise' p, out)]"
    and rest: "nextPromise t = nextPromise s" "uuids t = uuids s" "uuidCount t = uuidCount s"
  shows "tracker_inv t"
proof -
  obtain w where w: "timers s (promise' p) = Some (f, w)"
    using inv_pending[OF inv entry] by blast
  have unsettled: "promise' p \<notin> fst ` set (settled s)"
  proof
    assume "promise' p \<in> fst ` set (settled s)"
    then obtain o' where "(promise' p, o') \<in> set (settled s)" by auto
    from inv_settled[OF inv this] w show False by simp
  qed
  show ?thesis
  proof (rule tracker_invI)
    show "inj (uuids t)" using inv_inj[OF inv] rest by simp
  next
    fix f' p' assume a: "pendingFetches t f' = Some p'"
    then have ne: "f' \<noteq> f" and b: "pendingFetches s f' = Some p'"
      using pf by (auto split: if_splits)
    obtain w' where w': "timers s (promise' p') = Some (f', w')"
      using inv_pending[OF inv b] by blast
    with w ne have "promise' p' \<noteq> promise' p" by auto
    with w' tm show "\<exists>w. timers t (promise' p') = Some (f', w)" by simp
  next
    fix q f' w' assume a: "timers t q = Some (f', w')"
    then have ne: "q \<noteq> promise' p" and b: "timers s q = Some (f', w')"
      using tm by (auto split: if_splits)
    obtain p' where p': "pendingFetches s f' = Some p'" "promise' p' = q"
      using inv_timer[OF inv b] by blast
    with entry ne have "f' \<noteq> f" by auto
    with p' pf show "\<exists>p. pendingFetches t f' = Some p \<and> promise' p = q" by simp
    show "q < nextPromise t" using inv_timer_bound[OF inv b] rest by simp
    show "\<exists>n<uuidCount t. f' = uuids t n" using inv_timer_uuid[OF inv b] rest by simp
  next
    fix q o' assume "(q, o') \<in> set (settled t)"
    then have "(q, o') \<in> set (settled s) \<or> q = promise' p"
      using st by auto
    then show "timers t q = None" "q < nextPromise t"
      using inv_settled[OF inv, of q o'] inv_settled_bound[OF inv, of q o']
        inv_timer_bound[OF inv w] tm rest by auto
  next
    show "distinct (map fst (settled t))"
      using inv_distinct[OF inv] unsettled st by simp
  next
    fix q assume "q < nextPromise t"
    then have "q \<in> fst ` set (settled s) \<or> timers s q \<noteq> None"
      using inv_created[OF inv, of q] rest by simp
    then show "q \<in> fst ` set (settled t) \<or> timers t q \<noteq> None"
      using st tm by (cases "q = promise' p") auto
  qed
qed

subsection \<open>Fetch\<close>

lemma fetch_target_missing:
  assumes "clients s cid = None"
  shows "fetch_target e w c d m (ps, s) cid
       = (ps @ [nextPromise s],
          s\<lparr> nextPromise := Suc (nextPromise s),
              settled := settled s @ [(nextPromise s, Rejected (ClientNotFound cid))] \<rparr>)"
  using assms by (simp add: fetch_target_def newPromise_def settle_def)

lemma fetch_target_found:
  assumes "clients s cid = Some connection"
  shows "fetch_target e w c d m (ps, s) cid
       = (ps @ [nextPromise s],
          sendMessage (ws' connection)
            \<lparr> type' = ''event'', event' = Some e, fetchId' = Some (uuids s (uuidCount s)),
              body' = Message c d m, header' = None \<rparr>
            (s\<lparr> uuidCount := Suc (uuidCount s), nextPromise := Suc (nextPromise s),
                timers := (timers s)(nextPromise s \<mapsto> (uuids s (uuidCount s), w)),
                pendingFetches := (pendingFetches s)(uuids s (uuidCount s) \<mapsto>
                    \<lparr> promise' = nextPromise s, clientId' = cid \<rparr>),
                clientPendingFetches := (clientPendingFetches s)(cid \<mapsto>
                    Set_add (uuids s (uuidCount s))
                      (case clientPendingFetches s cid of None \<Rightarrow> [] | Some fs \<Rightarrow> fs)) \<rparr>))"
  using assms
  by (cases "clientPendingFetches s cid")
     (simp_all add: fetch_target_def newPromise_def randomUUID_def Let_def)

lemma inv_fetch_target:
  assumes "tracker_inv s"
  shows "tracker_inv (snd (fetch_target e w c d m (ps, s) cid))"
proof (cases "clients s cid")
  case None
  show ?thesis
    by (rule inv_settle_new[OF assms]) (simp_all add: fetch_target_missing[OF None])
next
  case (Some connection)
  show ?thesis
    by (rule inv_register[OF assms, where c = cid and w = w])
       (simp_all add: fetch_target_found[OF Some])
qed

lemma covers_fetch_target:
  assumes "reverse_index_covers s"
  shows "reverse_index_covers (snd (fetch_target e w c d m (ps, s) cid))"
proof (cases "clients s cid")
  case None
  with assms show ?thesis
    by (simp add: fetch_target_missing reverse_index_covers_def)
next
  case (Some connection)
  show ?thesis
    unfolding reverse_index_covers_def
  proof (intro allI impI)
    fix f p
    assume a: "pendingFetches (snd (fetch_target e w c d m (ps, s) cid)) f = Some p"
    show "\<exists>fs. clientPendingFetches (snd (fetch_target e w c d m (ps, s) cid)) (clientId' p) = Some fs
              \<and> f \<in> set fs"
    proof (cases "f = uuids s (uuidCount s)")
      case True
      with a show ?thesis
        by (auto simp: fetch_target_found[OF Some])
    next
      case False
      with a have "pendingFetches s f = Some p"
        by (simp add: fetch_target_found[OF Some])
      then obtain fs where "clientPendingFetches s (clientId' p) = Some fs" "f \<in> set fs"
        using assms unfolding reverse_index_covers_def by blast
      then show ?thesis
        by (auto simp: fetch_target_found[OF Some])
    qed
  qed
qed

lemma uuids_fetch_target [simp]:
  "uuids (snd (fetch_target e w c d m (ps, s) cid)) = uuids s"
  by (cases "clients s cid") (simp_all add: fetch_target_missing fetch_target_found)

lemma fetch_loop_inv:
  "tracker_inv (snd acc) \<Longrightarrow> tracker_inv (snd (foldl (fetch_target e w c d m) acc ids))"
proof (induction ids arbitrary: acc)
  case Nil
  then show ?case by simp
next
  case (Cons i ids)
  show ?case
    using Cons.IH[of "fetch_target e w c d m acc i"] inv_fetch_target[of "snd acc" e w c d m "fst acc" i]
      Cons.prems by simp
qed

lemma fetch_loop_covers:
  "reverse_index_covers (snd acc) \<Longrightarrow>
   reverse_index_covers (snd (foldl (fetch_target e w c d m) acc ids))"
proof (induction ids arbitrary: acc)
  case Nil
  then show ?case by simp
next
  case (Cons i ids)
  show ?case
    using Cons.IH[of "fetch_target e w c d m acc i"]
      covers_fetch_target[of "snd acc" e w c d m "fst acc" i] Cons.prems by simp
qed

lemma fetch_loop_uuids [simp]:
  "uuids (snd (foldl (fetch_target e w c d m) acc ids)) = uuids (snd acc)"
proof (induction ids arbitrary: acc)
  case Nil
  then show ?case by simp
next
  case (Cons i ids)
  show ?case
    using Cons.IH[of "fetch_target e w c d m acc i"] uuids_fetch_target[of e w c d m "fst acc" "snd acc" i]
    by simp
qed

lemma notify_target_tracker: "same_tracker s (notify_target e c d m s cid) \<and>
    uuidCount (notify_target e c d m s cid) = uuidCount s"
  by (simp add: notify_target_def same_tracker_def split: option.splits)

lemma notify_loop_tracker:
  "same_tracker s (foldl (notify_target e c d m) s ids) \<and>
   uuidCount (foldl (notify_target e c d m) s ids) = uuidCount s"
proof (induction ids arbitrary: s)
  case Nil
  then show ?case by simp
next
  case (Cons i ids)
  show ?case
    using Cons.IH[of "notify_target e c d m s i"] notify_target_tracker[of s e c d m i]
    by (simp add: same_tracker_def)
qed

lemma fetch_cases:
  obtains (notify) c m ids where "snd (fetch tgt e d cfg s) = foldl (notify_target e c d m) s ids"
  | (await) w c m ids where
      "snd (fetch tgt e d cfg s) = snd (foldl (fetch_target e w c d m) ([], s) ids)"
proof -
  define ids where "ids = (case tgt of One i \<Rightarrow> [i] | Many is \<Rightarrow> is)"
  define fc where "fc = mergeConfig (fetchConfig s) cfg"
  define w where "w = (case maxWait' fc of None \<Rightarrow> 10000 | Some v \<Rightarrow> v)"
  define hr where "hr = (case hasReply' fc of None \<Rightarrow> True | Some v \<Rightarrow> v)"
  define c where "c = (case code' fc of None \<Rightarrow> 200 | Some v \<Rightarrow> v)"
  define m where "m = (case msg' fc of None \<Rightarrow> ''success'' | Some v \<Rightarrow> v)"
  show ?thesis
  proof (cases hr)
    case False
    then have "snd (fetch tgt e d cfg s) = foldl (notify_target e c d m) s ids"
      unfolding fetch_def Let_def ids_def fc_def hr_def c_def m_def by simp
    then show ?thesis by (rule notify)
  next
    case True
    then have "snd (fetch tgt e d cfg s) = snd (foldl (fetch_target e w c d m) ([], s) ids)"
      unfolding fetch_def Let_def ids_def fc_def hr_def c_def m_def w_def
      by (simp split: prod.splits)
    then show ?thesis by (rule await)
  qed
qed

lemma fetch_inv: "tracker_inv s \<Longrightarrow> tracker_inv (snd (fetch tgt e d cfg s))"
proof (cases rule: fetch_cases[of tgt e d cfg s])
  case (notify c m ids)
  assume "tracker_inv s"
  then show ?thesis
    using notify_loop_tracker[of s e c d m ids] same_tracker_inv unfolding notify by fastforce
next
  case (await w c m ids)
  assume "tracker_inv s"
  then show ?thesis
    using fetch_loop_inv[of "([], s)" e w c d m ids] unfolding await by simp
qed

lemma fetch_covers: "reverse_index_covers s \<Longrightarrow> reverse_index_covers (snd (fetch tgt e d cfg s))"
proof (cases rule: fetch_cases[of tgt e d cfg s])
  case (notify c m ids)
  assume "reverse_index_covers s"
  then show ?thesis
    using notify_loop_tracker[of s e c d m ids] same_tracker_covers unfolding notify by blast
next
  case (await w c m ids)
  assume "reverse_index_covers s"
  then show ?thesis
    using fetch_loop_covers[of "([], s)" e w c d m ids] unfolding await by simp
qed

lemma fetch_uuids [simp]: "uuids (snd (fetch tgt e d cfg s)) = uuids s"
proof (cases rule: fetch_cases[of tgt e d cfg s])
  case (notify c m ids)
  then show ?thesis
    using notify_loop_tracker[of s e c d m ids] by (simp add: same_tracker_def)
next
  case (await w c m ids)
  then show ?thesis by simp
qed

subsection \<open>Replies, deadlines and teardown\<close>

lemma dropReverseIndex_fields [simp]:
  "pendingFetches (dropReverseIndex c f s) = pendingFetches s"
  "timers (dropReverseIndex c f s) = timers s"
  "settled (dropReverseIndex c f s) = settled s"
  "nextPromise (dropReverseIndex c f s) = nextPromise s"
  "uuids (dropReverseIndex c f s) = uuids s"
  "uuidCount (dropReverseIndex c f s) = uuidCount s"
  "clients (dropReverseIndex c f s) = clients s"
  "priv_groups (dropReverseIndex c f s) = priv_groups s"
  by (simp_all add: dropReverseIndex_def split: option.splits)

lemma dropReverseIndex_keeps:
  assumes "clientPendingFetches s c' = Some fs" and "f' \<in> set fs" and "f' \<noteq> f"
  shows "\<exists>fs'. clientPendingFetches (dropReverseIndex c f s) c' = Some fs' \<and> f' \<in> set fs'"
proof (cases "c' = c")
  case False
  with assms show ?thesis
    by (simp add: dropReverseIndex_def split: option.splits)
next
  case True
  have "Set_delete f fs \<noteq> []"
    using assms by (auto simp: Set_delete_empty)
  with True assms show ?thesis
    by (simp add: dropReverseIndex_def)
qed

lemma reply_branch_fields:
  assumes "pendingFetches s f = Some p"
  shows "pendingFetches (reply_branch f b s) = (pendingFetches s)(f := None)"
    and "timers (reply_branch f b s) = (timers s)(promise' p := None)"
    and "settled (reply_branch f b s) = settled s @ [(promise' p, Fulfilled b)]"
    and "nextPromise (reply_branch f b s) = nextPromise s"
    and "uuids (reply_branch f b s) = uuids s"
    and "uuidCount (reply_branch f b s) = uuidCount s"
    and "clientPendingFetches (reply_branch f b s)
           = clientPendingFetches (dropReverseIndex (clientId' p) f s)"
  using assms
  by (simp_all add: reply_branch_def pending_resolve_def settle_def clearTimeout_def Let_def
      dropReverseIndex_def split: option.splits)

lemma reply_branch_unknown: "pendingFetches s f = None \<Longrightarrow> reply_branch f b s = s"
  by (simp add: reply_branch_def)

lemma reply_branch_inv: "tracker_inv s \<Longrightarrow> tracker_inv (reply_branch f b s)"
proof (cases "pendingFetches s f")
  case None
  assume "tracker_inv s"
  with None show ?thesis by (simp add: reply_branch_unknown)
next
  case (Some p)
  assume inv: "tracker_inv s"
  show ?thesis
    by (rule inv_remove[OF inv Some]) (simp_all add: reply_branch_fields[OF Some])
qed

lemma covers_remove:
  assumes cov: "reverse_index_covers s"
    and pf: "pendingFetches t = (pendingFetches s)(f := None)"
    and ri: "clientPendingFetches t = clientPendingFetches (dropReverseIndex c f s)"
  shows "reverse_index_covers t"
  unfolding reverse_index_covers_def
proof (intro allI impI)
  fix f' p' assume "pendingFetches t f' = Some p'"
  then have ne: "f' \<noteq> f" and b: "pendingFetches s f' = Some p'"
    using pf by (auto split: if_splits)
  obtain fs where "clientPendingFetches s (clientId' p') = Some fs" "f' \<in> set fs"
    using cov b unfolding reverse_index_covers_def by blast
  from dropReverseIndex_keeps[OF this ne, of c]
  show "\<exists>fs. clientPendingFetches t (clientId' p') = Some fs \<and> f' \<in> set fs"
    using ri by simp
qed

lemma reply_branch_covers: "reverse_index_covers s \<Longrightarrow> reverse_index_covers (reply_branch f b s)"
proof (cases "pendingFetches s f")
  case None
  assume "reverse_index_covers s"
  with None show ?thesis by (simp add: reply_branch_unknown)
next
  case (Some p)
  assume cov: "reverse_index_covers s"
  show ?thesis
    by (rule covers_remove[OF cov, where f = f and c = "clientId' p"])
       (simp_all add: reply_branch_fields[OF Some])
qed

lemma reply_branch_uuids [simp]: "uuids (reply_branch f b s) = uuids s"
  by (cases "pendingFetches s f") (simp_all add: reply_branch_unknown reply_branch_fields)

text \<open>The deadline timer.\<close>

lemma timeout_callback_cleared: "timers s q = None \<Longrightarrow> timeout_callback q s = s"
  by (simp add: timeout_callback_def)

lemma timeout_callback_fields:
  assumes "timers s q = Some (f, w)"
  shows "pendingFetches (timeout_callback q s) = (pendingFetches s)(f := None)"
    and "timers (timeout_callback q s) = (timers s)(q := None)"
    and "settled (timeout_callback q s) = settled s @ [(q, Rejected (RequestTimeout w))]"
    and "nextPromise (timeout_callback q s) = nextPromise s"
    and "uuids (timeout_callback q s) = uuids s"
    and "uuidCount (timeout_callback q s) = uuidCount s"
    and "clientPendingFetches (timeout_callback q s)
           = (case pendingFetches s f of None \<Rightarrow> clientPendingFetches s
              | Some p \<Rightarrow> clientPendingFetches (dropReverseIndex (clientId' p) f s))"
  using assms
  by (simp_all add: timeout_callback_def settle_def Let_def dropReverseIndex_def split: option.splits)

lemma timeout_callback_inv: "tracker_inv s \<Longrightarrow> tracker_inv (timeout_callback q s)"
proof (cases "timers s q")
  case None
  assume "tracker_inv s"
  with None show ?thesis by (simp add: timeout_callback_cleared)
next
  case (Some fw)
  assume inv: "tracker_inv s"
  obtain f w where fw: "timers s q = Some (f, w)"
    using Some by (cases fw) simp
  obtain p where p: "pendingFetches s f = Some p" "promise' p = q"
    using inv_timer[OF inv fw] by blast
  show ?thesis
    by (rule inv_remove[OF inv p(1)]) (simp_all add: timeout_callback_fields[OF fw] p(2))
qed

lemma timeout_callback_covers:
  "reverse_index_covers s \<Longrightarrow> reverse_index_covers (timeout_callback q s)"
proof (cases "timers s q")
  case None
  assume "reverse_index_covers s"
  with None show ?thesis by (simp add: timeout_callback_cleared)
next
  case (Some fw)
  assume cov: "reverse_index_covers s"
  obtain f w where fw: "timers s q = Some (f, w)"
    using Some by (cases fw) simp
  show ?thesis
  proof (cases "pendingFetches s f")
    case None
    have "pendingFetches (timeout_callback q s) = pendingFetches s"
      using None by (simp add: timeout_callback_fields[OF fw] fun_upd_idem)
    moreover have "clientPendingFetches (timeout_callback q s) = clientPendingFetches s"
      using None by (simp add: timeout_callback_fields[OF fw])
    ultimately show ?thesis
      using cov by (simp add: reverse_index_covers_def)
  next
    case (Some p)
    show ?thesis
      by (rule covers_remove[OF cov, where f = f and c = "clientId' p"])
         (simp_all add: timeout_callback_fields[OF fw] Some)
  qed
qed

lemma timeout_callback_uuids [simp]: "uuids (timeout_callback q s) = uuids s"
proof (cases "timers s q")
  case None
  then show ?thesis by (simp add: timeout_callback_cleared)
next
  case (Some fw)
  then show ?thesis by (cases fw) (simp add: timeout_callback_fields)
qed

text \<open>The first loop of \<open>cleanupClient\<close>.\<close>

lemma cancelPending_unknown: "pendingFetches s f = None \<Longrightarrow> cancelPending s f = s"
  by (simp add: cancelPending_def)

lemma cancelPending_fields:
  assumes "pendingFetches s f = Some p"
  shows "pendingFetches (cancelPending s f) = (pendingFetches s)(f := None)"
    and "timers (cancelPending s f) = (timers s)(promise' p := None)"
    and "settled (cancelPending s f) = settled s @ [(promise' p, Rejected ClientDisconnected)]"
    and "nextPromise (cancelPending s f) = nextPromise s"
    and "uuids (cancelPending s f) = uuids s"
    and "uuidCount (cancelPending s f) = uuidCount s"
    and "clientPendingFetches (cancelPending s f) = clientPendingFetches s"
    and "clients (cancelPending s f) = clients s"
    and "priv_groups (cancelPending s f) = priv_groups s"
  using assms
  by (simp_all add: cancelPending_def pending_reject_def settle_def clearTimeout_def Let_def)

lemma cancelPending_inv: "tracker_inv s \<Longrightarrow> tracker_inv (cancelPending s f)"
proof (cases "pendingFetches s f")
  case None
  assume "tracker_inv s"
  with None show ?thesis by (simp add: cancelPending_unknown)
next
  case (Some p)
  assume inv: "tracker_inv s"
  show ?thesis
    by (rule inv_remove[OF inv Some]) (simp_all add: cancelPending_fields[OF Some])
qed

lemma cancelPending_frame [simp]:
  "clientPendingFetches (cancelPending s f) = clientPendingFetches s"
  "clients (cancelPending s f) = clients s"
  "priv_groups (cancelPending s f) = priv_groups s"
  "uuids (cancelPending s f) = uuids s"
  "uuidCount (cancelPending s f) = uuidCount s"
  "nextPromise (cancelPending s f) = nextPromise s"
  by (cases "pendingFetches s f"; simp add: cancelPending_unknown cancelPending_fields)+

lemma cancelPending_pending:
  "pendingFetches (cancelPending s f) = (pendingFetches s)(f := None)"
  by (cases "pendingFetches s f") (simp_all add: cancelPending_unknown cancelPending_fields fun_upd_idem)

lemma cancel_loop_frame [simp]:
  "clientPendingFetches (foldl cancelPending s fs) = clientPendingFetches s"
  "clients (foldl cancelPending s fs) = clients s"
  "priv_groups (foldl cancelPending s fs) = priv_groups s"
  "uuids (foldl cancelPending s fs) = uuids s"
  "uuidCount (foldl cancelPending s fs) = uuidCount s"
  "nextPromise (foldl cancelPending s fs) = nextPromise s"
  by (induction fs arbitrary: s) simp_all

lemma cancel_loop_pending:
  "pendingFetches (foldl cancelPending s fs) f
     = (if f \<in> set fs then None else pendingFetches s f)"
  by (induction fs arbitrary: s) (simp_all add: cancelPending_pending)

lemma cancel_loop_inv: "tracker_inv s \<Longrightarrow> tracker_inv (foldl cancelPending s fs)"
  by (induction fs arbitrary: s) (simp_all add: cancelPending_inv)

lemma cancelPending_settled_grows:
  "\<exists>xs. settled (cancelPending s f) = settled s @ xs"
  by (cases "pendingFetches s f") (simp_all add: cancelPending_unknown cancelPending_fields)

lemma cancel_loop_settled_grows:
  "\<exists>xs. settled (foldl cancelPending s fs) = settled s @ xs"
proof (induction fs arbitrary: s)
  case Nil
  then show ?case by simp
next
  case (Cons f fs)
  obtain xs where xs: "settled (cancelPending s f) = settled s @ xs"
    using cancelPending_settled_grows by blast
  obtain ys where "settled (foldl cancelPending (cancelPending s f) fs) = settled (cancelPending s f) @ ys"
    using Cons.IH by blast
  with xs show ?case by simp
qed

lemma cancelPending_timer_stays_cleared:
  "timers s q = None \<Longrightarrow> timers (cancelPending s f) q = None"
  by (cases "pendingFetches s f") (simp_all add: cancelPending_unknown cancelPending_fields)

lemma cancel_loop_timer_stays_cleared:
  "timers s q = None \<Longrightarrow> timers (foldl cancelPending s fs) q = None"
  by (induction fs arbitrary: s) (simp_all add: cancelPending_timer_stays_cleared)

lemma cancel_loop_rejects:
  assumes "f \<in> set fs" and "pendingFetches s f = Some p"
  shows "\<exists>xs. settled (foldl cancelPending s fs) = settled s @ xs
              \<and> (promise' p, Rejected ClientDisconnected) \<in> set xs"
    and "timers (foldl cancelPending s fs) (promise' p) = None"
  using assms
proof (induction fs arbitrary: s)
  case Nil
  {
    case 1 then show ?case by simp
  next
    case 2 then show ?case by simp
  }
next
  case (Cons h fs)
  {
    case 1
    show ?case
    proof (cases "h = f")
      case True
      obtain ys where ys: "settled (foldl cancelPending (cancelPending s f) fs)
          = settled (cancelPending s f) @ ys"
        using cancel_loop_settled_grows by blast
      show ?thesis
        using True ys 1(2)
        by (intro exI[of _ "(promise' p, Rejected ClientDisconnected) # ys"])
           (simp add: cancelPending_fields)
    next
      case False
      with 1 have mem: "f \<in> set fs" by simp
      have still: "pendingFetches (cancelPending s h) f = Some p"
        using False 1(2) by (simp add: cancelPending_pending)
      obtain xs where xs: "settled (cancelPending s h) = settled s @ xs"
        using cancelPending_settled_grows by blast
      obtain ys where "settled (foldl cancelPending (cancelPending s h) fs) = settled (cancelPending s h) @ ys"
          "(promise' p, Rejected ClientDisconnected) \<in> set ys"
        using Cons.IH(1)[OF mem still] by blast
      with xs show ?thesis
        by (intro exI[of _ "xs @ ys"]) simp
    qed
  next
    case 2
    show ?case
    proof (cases "h = f")
      case True
      have "timers (cancelPending s f) (promise' p) = None"
        using 2(2) by (simp add: cancelPending_fields)
      then show ?thesis
        using True by (simp add: cancel_loop_timer_stays_cleared)
    next
      case False
      with 2 have mem: "f \<in> set fs" by simp
      have still: "pendingFetches (cancelPending s h) f = Some p"
        using False 2(2) by (simp add: cancelPending_pending)
      show ?thesis
        using Cons.IH(2)[OF mem still] by simp
    qed
  }
qed

lemma leaveOnCleanup_tracker:
  "same_tracker (state_of r) (state_of (leaveOnCleanup c r g))
     \<and> uuidCount (state_of (leaveOnCleanup c r g)) = uuidCount (state_of r)"
  by (cases r; cases "lookupGroup (state_of r) g")
     (simp_all add: leaveOnCleanup_def same_tracker_def)

lemma leave_loop_tracker:
  "same_tracker (state_of r) (state_of (foldl (leaveOnCleanup c) r gs))
     \<and> uuidCount (state_of (foldl (leaveOnCleanup c) r gs)) = uuidCount (state_of r)"
proof (induction gs arbitrary: r)
  case Nil
  then show ?case by simp
next
  case (Cons g gs)
  show ?case
    using Cons.IH[of "leaveOnCleanup c r g"] leaveOnCleanup_tracker[of r c g]
    by (simp add: same_tracker_def)
qed

text \<open>The tracker after \<open>cleanupClient\<close> of a connected client, whether or not its
  second loop throws.\<close>

lemma cleanupClient_unknown: "clients s c = None \<Longrightarrow> cleanupClient c s = Returned s"
  by (simp add: cleanupClient_def)

lemma cleanupClient_tracker:
  assumes "clients s c = Some connection"
  defines "fs \<equiv> (case clientPendingFetches s c of None \<Rightarrow> [] | Some fs \<Rightarrow> fs)"
  shows "pendingFetches (state_of (cleanupClient c s)) = pendingFetches (foldl cancelPending s fs)"
    and "timers (state_of (cleanupClient c s)) = timers (foldl cancelPending s fs)"
    and "settled (state_of (cleanupClient c s)) = settled (foldl cancelPending s fs)"
    and "nextPromise (state_of (cleanupClient c s)) = nextPromise s"
    and "uuids (state_of (cleanupClient c s)) = uuids s"
    and "uuidCount (state_of (cleanupClient c s)) = uuidCount s"
    and "clientPendingFetches (state_of (cleanupClient c s)) = (clientPendingFetches s)(c := None)"
proof -
  define s1 where "s1 = (case clientPendingFetches s c of
                      None \<Rightarrow> s
                    | Some pendingFetchIds \<Rightarrow>
                        (foldl cancelPending s pendingFetchIds)
                          \<lparr> clientPendingFetches :=
                              (clientPendingFetches (foldl cancelPending s pendingFetchIds))(c := None) \<rparr>)"
  define r where "r = foldl (leaveOnCleanup c) (Returned s1) (groups (user' connection))"
  have s1: "pendingFetches s1 = pendingFetches (foldl cancelPending s fs)"
    "timers s1 = timers (foldl cancelPending s fs)"
    "settled s1 = settled (foldl cancelPending s fs)"
    "nextPromise s1 = nextPromise s" "uuids s1 = uuids s" "uuidCount s1 = uuidCount s"
    "clientPendingFetches s1 = (clientPendingFetches s)(c := None)"
    unfolding s1_def fs_def by (simp_all add: fun_upd_idem split: option.splits)
  have eq: "cleanupClient c s
      = (case r of Thrown e s2 \<Rightarrow> Thrown e s2
         | Returned s2 \<Rightarrow> Returned (s2\<lparr> clients := (clients s2)(c := None) \<rparr>))"
    using assms(1) unfolding cleanupClient_def s1_def r_def Let_def by simp
  have lt: "same_tracker s1 (state_of r) \<and> uuidCount (state_of r) = uuidCount s1"
    using leave_loop_tracker[of "Returned s1" c "groups (user' connection)"]
    unfolding r_def by simp
  show "pendingFetches (state_of (cleanupClient c s)) = pendingFetches (foldl cancelPending s fs)"
    and "timers (state_of (cleanupClient c s)) = timers (foldl cancelPending s fs)"
    and "settled (state_of (cleanupClient c s)) = settled (foldl cancelPending s fs)"
    and "nextPromise (state_of (cleanupClient c s)) = nextPromise s"
    and "uuids (state_of (cleanupClient c s)) = uuids s"
    and "uuidCount (state_of (cleanupClient c s)) = uuidCount s"
    and "clientPendingFetches (state_of (cleanupClient c s)) = (clientPendingFetches s)(c := None)"
    using lt s1 unfolding eq same_tracker_def by (cases r; simp)+
qed

lemma cleanupClient_inv: "tracker_inv s \<Longrightarrow> tracker_inv (state_of (cleanupClient c s))"
proof (cases "clients s c")
  case None
  assume "tracker_inv s"
  with None show ?thesis by (simp add: cleanupClient_unknown)
next
  case (Some connection)
  assume inv: "tracker_inv s"
  let ?fs = "case clientPendingFetches s c of None \<Rightarrow> [] | Some fs \<Rightarrow> fs"
  have "tracker_inv (foldl cancelPending s ?fs)"
    by (rule cancel_loop_inv[OF inv])
  then show ?thesis
    unfolding tracker_inv_def by (simp add: cleanupClient_tracker[OF Some])
qed

lemma cleanupClient_covers: "reverse_index_covers s \<Longrightarrow> reverse_index_covers (state_of (cleanupClient c s))"
proof (cases "clients s c")
  case None
  assume "reverse_index_covers s"
  with None show ?thesis by (simp add: cleanupClient_unknown)
next
  case (Some connection)
  assume cov: "reverse_index_covers s"
  let ?fs = "case clientPendingFetches s c of None \<Rightarrow> [] | Some fs \<Rightarrow> fs"
  show ?thesis
    unfolding reverse_index_covers_def
  proof (intro allI impI)
    fix f p assume "pendingFetches (state_of (cleanupClient c s)) f = Some p"
    then have a: "f \<notin> set ?fs" "pendingFetches s f = Some p"
      by (auto simp: cleanupClient_tracker[OF Some] cancel_loop_pending split: if_splits)
    then obtain fs where fs: "clientPendingFetches s (clientId' p) = Some fs" "f \<in> set fs"
      using cov unfolding reverse_index_covers_def by blast
    with a(1) have "clientId' p \<noteq> c" by auto
    with fs show "\<exists>fs. clientPendingFetches (state_of (cleanupClient c s)) (clientId' p) = Some fs \<and> f \<in> set fs"
      by (simp add: cleanupClient_tracker[OF Some])
  qed
qed

lemma cleanupClient_uuids [simp]: "uuids (state_of (cleanupClient c s)) = uuids s"
  by (cases "clients s c") (simp_all add: cleanupClient_unknown cleanupClient_tracker)

subsection \<open>The operations that leave the tracker alone\<close>

lemma only_io_same_tracker: "only_io s t \<Longrightarrow> same_tracker s t \<and> uuidCount t = uuidCount s"
  by (simp add: only_io_def same_tracker_def)

lemma quiet_steps:
  "same_tracker s (use h s) \<and> uuidCount s \<le> uuidCount (use h s)"
  "same_tracker s (on e h s) \<and> uuidCount s \<le> uuidCount (on e h s)"
  "same_tracker s (onConnection ws s) \<and> uuidCount s \<le> uuidCount (onConnection ws s)"
  "same_tracker s (state_of (addGroup g c s)) \<and> uuidCount s \<le> uuidCount (state_of (addGroup g c s))"
  "same_tracker s (state_of (removeGroup g c s)) \<and> uuidCount s \<le> uuidCount (state_of (removeGroup g c s))"
  "same_tracker s (socket_state ws st s) \<and> uuidCount s \<le> uuidCount (socket_state ws st s)"
  "same_tracker s (s\<lparr> fetchConfig := cfg \<rparr>) \<and> uuidCount s \<le> uuidCount (s\<lparr> fetchConfig := cfg \<rparr>)"
  "same_tracker s (s\<lparr> maxMessageSize := n \<rparr>) \<and> uuidCount s \<le> uuidCount (s\<lparr> maxMessageSize := n \<rparr>)"
  by (simp_all add: same_tracker_def use_def on_def onConnection_def randomUUID_def Let_def
      addGroup_def removeGroup_def socket_state_def split: option.splits property.splits)

lemma handleMessage_inv:
  assumes "tracker_inv s"
  shows "tracker_inv (state_of (handleMessage P ws u raw s))"
proof (cases rule: handleMessage_cases[of P ws u raw s])
  case (send m)
  show ?thesis unfolding send
    by (rule same_tracker_inv[OF _ _ assms]) (simp_all add: same_tracker_def)
next
  case same
  with assms show ?thesis by simp
next
  case (reply f b)
  with assms show ?thesis by (simp add: reply_branch_inv)
next
  case (event ev f b h)
  show ?thesis unfolding event
    using only_io_same_tracker[OF event_branch_rel(3)[of s ws u ev f b h]] same_tracker_inv[OF _ _ assms]
    by simp
qed

lemma handleMessage_covers:
  assumes "reverse_index_covers s"
  shows "reverse_index_covers (state_of (handleMessage P ws u raw s))"
proof (cases rule: handleMessage_cases[of P ws u raw s])
  case (send m)
  show ?thesis unfolding send
    by (rule same_tracker_covers[OF _ assms]) (simp add: same_tracker_def)
next
  case same
  with assms show ?thesis by simp
next
  case (reply f b)
  with assms show ?thesis by (simp add: reply_branch_covers)
next
  case (event ev f b h)
  show ?thesis unfolding event
    using only_io_same_tracker[OF event_branch_rel(3)[of s ws u ev f b h]] same_tracker_covers[OF _ assms]
    by simp
qed

lemma handleMessage_uuids [simp]: "uuids (state_of (handleMessage P ws u raw s)) = uuids s"
proof (cases rule: handleMessage_cases[of P ws u raw s])
  case (event ev f b h)
  show ?thesis unfolding event
    using only_io_same_tracker[OF event_branch_rel(3)[of s ws u ev f b h]]
    by (simp add: same_tracker_def)
qed simp_all

lemma reachable_covers: "reachable P s \<Longrightarrow> reverse_index_covers s"
proof (induction rule: reachable.induct)
  case (new us a)
  show ?case by (rule covers_initial)
next
  case (use s h)
  then show ?case using quiet_steps(1)[of s h] same_tracker_covers by blast
next
  case (on s e h)
  then show ?case using quiet_steps(2)[of s e h] same_tracker_covers by blast
next
  case (connect s ws)
  then show ?case using quiet_steps(3)[of s ws] same_tracker_covers by blast
next
  case (fetch s tgt e d cfg)
  then show ?case by (simp add: fetch_covers)
next
  case (message s ws u raw)
  then show ?case by (simp add: handleMessage_covers)
next
  case (timeout s q)
  then show ?case by (simp add: timeout_callback_covers)
next
  case (cleanup s c)
  then show ?case by (simp add: cleanupClient_covers)
next
  case (join s g c)
  then show ?case using quiet_steps(4)[of s g c] same_tracker_covers by blast
next
  case (leave s g c)
  then show ?case using quiet_steps(5)[of s g c] same_tracker_covers by blast
next
  case (socket s ws st)
  then show ?case using quiet_steps(6)[of s ws st] same_tracker_covers by blast
next
  case (config s cfg)
  then show ?case using quiet_steps(7)[of s cfg] same_tracker_covers by blast
next
  case (limit s n)
  then show ?case using quiet_steps(8)[of s n] same_tracker_covers by blast
qed

lemma reachable_inv: "reachable P s \<Longrightarrow> inj (uuids s) \<Longrightarrow> tracker_inv s"
proof (induction rule: reachable.induct)
  case (new us a)
  then have "inj us" by (simp add: initial_def)
  then show ?case by (rule inv_initial)
next
  case (use s h)
  then show ?case using quiet_steps(1)[of s h] same_tracker_inv by (fastforce simp: same_tracker_def)
next
  case (on s e h)
  then show ?case using quiet_steps(2)[of s e h] same_tracker_inv by (fastforce simp: same_tracker_def)
next
  case (connect s ws)
  then show ?case using quiet_steps(3)[of s ws] same_tracker_inv by (fastforce simp: same_tracker_def)
next
  case (fetch s tgt e d cfg)
  then show ?case by (simp add: fetch_inv)
next
  case (message s ws u raw)
  then show ?case by (simp add: handleMessage_inv)
next
  case (timeout s q)
  then show ?case by (simp add: timeout_callback_inv)
next
  case (cleanup s c)
  then show ?case by (simp add: cleanupClient_inv)
next
  case (join s g c)
  then show ?case using quiet_steps(4)[of s g c] same_tracker_inv by (fastforce simp: same_tracker_def)
next
  case (leave s g c)
  then show ?case using quiet_steps(5)[of s g c] same_tracker_inv by (fastforce simp: same_tracker_def)
next
  case (socket s ws st)
  then show ?case using quiet_steps(6)[of s ws st] same_tracker_inv by (fastforce simp: same_tracker_def)
next
  case (config s cfg)
  then show ?case using quiet_steps(7)[of s cfg] same_tracker_inv by (fastforce simp: same_tracker_def)
next
  case (limit s n)
  then show ?case using quiet_steps(8)[of s n] same_tracker_inv by (fastforce simp: same_tracker_def)
qed

lemma distinct_count_list: "distinct xs \<Longrightarrow> count_list xs x = (if x \<in> set xs then 1 else 0)"
  by (induction xs) auto

lemma map_of_distinct_append:
  assumes "distinct (map fst (xs @ ys))" and "(k, v) \<in> set ys"
  shows "map_of (xs @ ys) k = Some v"
  using assms by (intro map_of_is_SomeI) auto

section \<open>Teardown cancels the peer's pending requests\<close>

text \<open>
  C2.  In every state the server can reach, for a connected peer \<open>c\<close>: \<open>cleanupClient\<close>
  invokes, within that one call, the \<open>reject\<close> of every pending request owned by \<open>c\<close>
  with the error \<open>Client disconnected\<close> and clears its deadline timer; afterwards the
  primary map holds no entry owned by \<open>c\<close> and the reverse index has no set for \<open>c\<close>.
  When \<open>randomUUID\<close> never repeats a value, that rejection is the outcome of the
  request's promise.
\<close>

theorem disconnect_cancels_pending:
  assumes "reachable JSON_parse s" and "clients s c = Some connection"
  shows "(\<forall>f p. pendingFetches s f = Some p \<and> clientId' p = c \<longrightarrow>
            (\<exists>xs. settled (state_of (cleanupClient c s)) = settled s @ xs
                  \<and> (promise' p, Rejected ClientDisconnected) \<in> set xs)
            \<and> timers (state_of (cleanupClient c s)) (promise' p) = None
            \<and> pendingFetches (state_of (cleanupClient c s)) f = None
            \<and> (inj (uuids s) \<longrightarrow>
                 promise_state (settled (state_of (cleanupClient c s))) (promise' p)
                   = Some (Rejected ClientDisconnected)))
       \<and> clientPendingFetches (state_of (cleanupClient c s)) c = None
       \<and> (\<forall>f p. pendingFetches (state_of (cleanupClient c s)) f = Some p \<longrightarrow> clientId' p \<noteq> c)"
proof -
  let ?fs = "case clientPendingFetches s c of None \<Rightarrow> [] | Some fs \<Rightarrow> fs"
  note ct = cleanupClient_tracker[OF assms(2)]
  have cov: "reverse_index_covers s"
    by (rule reachable_covers[OF assms(1)])
  have listed: "f \<in> set ?fs" if "pendingFetches s f = Some p" "clientId' p = c" for f p
    using cov that unfolding reverse_index_covers_def by force
  have part1: "(\<exists>xs. settled (state_of (cleanupClient c s)) = settled s @ xs
                  \<and> (promise' p, Rejected ClientDisconnected) \<in> set xs)
            \<and> timers (state_of (cleanupClient c s)) (promise' p) = None
            \<and> pendingFetches (state_of (cleanupClient c s)) f = None
            \<and> (inj (uuids s) \<longrightarrow>
                 promise_state (settled (state_of (cleanupClient c s))) (promise' p)
                   = Some (Rejected ClientDisconnected))"
    if pend: "pendingFetches s f = Some p" and own: "clientId' p = c" for f p
  proof -
    have mem: "f \<in> set ?fs" by (rule listed[OF pend own])
    obtain xs where xs: "settled (state_of (cleanupClient c s)) = settled s @ xs"
        "(promise' p, Rejected ClientDisconnected) \<in> set xs"
      using cancel_loop_rejects(1)[OF mem pend] by (auto simp: ct)
    have tm: "timers (state_of (cleanupClient c s)) (promise' p) = None"
      using cancel_loop_rejects(2)[OF mem pend] by (simp add: ct)
    have gone: "pendingFetches (state_of (cleanupClient c s)) f = None"
      using mem by (simp add: ct cancel_loop_pending)
    have outcome: "promise_state (settled (state_of (cleanupClient c s))) (promise' p)
                   = Some (Rejected ClientDisconnected)" if "inj (uuids s)"
    proof -
      have "tracker_inv (state_of (cleanupClient c s))"
        using reachable_inv[OF assms(1) that] by (rule cleanupClient_inv)
      then have "distinct (map fst (settled s @ xs))"
        using xs(1) by (simp add: tracker_inv_def)
      from map_of_distinct_append[OF this xs(2)] show ?thesis
        by (simp add: promise_state_def xs(1))
    qed
    show ?thesis
      using xs tm gone outcome by blast
  qed
  have part3: "clientId' p \<noteq> c" if "pendingFetches (state_of (cleanupClient c s)) f = Some p" for f p
  proof
    assume own: "clientId' p = c"
    from that have a: "f \<notin> set ?fs" "pendingFetches s f = Some p"
      by (auto simp: ct cancel_loop_pending split: if_splits)
    with listed[OF a(2) own] show False by simp
  qed
  have A: "\<forall>f p. pendingFetches s f = Some p \<and> clientId' p = c \<longrightarrow>
            (\<exists>xs. settled (state_of (cleanupClient c s)) = settled s @ xs
                  \<and> (promise' p, Rejected ClientDisconnected) \<in> set xs)
            \<and> timers (state_of (cleanupClient c s)) (promise' p) = None
            \<and> pendingFetches (state_of (cleanupClient c s)) f = None
            \<and> (inj (uuids s) \<longrightarrow>
                 promise_state (settled (state_of (cleanupClient c s))) (promise' p)
                   = Some (Rejected ClientDisconnected))"
    by (intro allI impI, elim conjE, rule part1)
  have B: "clientPendingFetches (state_of (cleanupClient c s)) c = None"
    by (simp add: ct)
  have C: "\<forall>f p. pendingFetches (state_of (cleanupClient c s)) f = Some p \<longrightarrow> clientId' p \<noteq> c"
    using part3 by blast
  show ?thesis
    by (rule conjI[OF A conjI[OF B C]])
qed

lemma unique_uuids: "inj (\<lambda>n. replicate (Suc n) CHR ''c'')"
  by (rule injI) (metis length_replicate nat.inject)

lemma fetch_One_default:
  assumes "fetchConfig s = \<lparr> maxWait' = Some w, hasReply' = Some True, code' = Some c, msg' = Some m \<rparr>"
  shows "fetch (One cid) e d None s
       = (Single (nextPromise s), snd (fetch_target e w c d m ([], s) cid))"
  using assms
  by (cases "clients s cid")
     (simp_all add: fetch_def mergeConfig_def Let_def fetch_target_missing fetch_target_found)

lemma fetch_Many_default:
  assumes "fetchConfig s = \<lparr> maxWait' = Some w, hasReply' = Some True, code' = Some c, msg' = Some m \<rparr>"
  shows "snd (fetch (Many ids) e d None s) = snd (foldl (fetch_target e w c d m) ([], s) ids)"
    and "length ids \<noteq> 1 \<Longrightarrow>
         fst (fetch (Many ids) e d None s) = All (fst (foldl (fetch_target e w c d m) ([], s) ids))"
proof -
  have len: "length (fst (foldl (fetch_target e w c d m) acc ids)) = length (fst acc) + length ids" for acc
  proof (induction ids arbitrary: acc)
    case Nil
    then show ?case by simp
  next
    case (Cons i ids)
    have "length (fst (fetch_target e w c d m acc i)) = Suc (length (fst acc))"
      by (cases acc; cases "clients (snd acc) i")
         (simp_all add: fetch_target_missing fetch_target_found)
    with Cons.IH[of "fetch_target e w c d m acc i"] show ?case by simp
  qed
  show "snd (fetch (Many ids) e d None s) = snd (foldl (fetch_target e w c d m) ([], s) ids)"
    using assms by (simp add: fetch_def mergeConfig_def Let_def split: prod.splits)
  show "length ids \<noteq> 1 \<Longrightarrow>
         fst (fetch (Many ids) e d None s) = All (fst (foldl (fetch_target e w c d m) ([], s) ids))"
    using assms len[of "([], s)"] by (auto simp add: fetch_def mergeConfig_def Let_def split: prod.splits)
qed

lemma two_peers_tracker:
  "clients two_peers ''c'' = Some \<lparr> ws' = 0, user' = \<lparr> id' = ''c'', groups = [] \<rparr> \<rparr>"
  "clients two_peers ''x'' = None"
  "pendingFetches two_peers = Map.empty"
  "clientPendingFetches two_peers = Map.empty"
  "timers two_peers = Map.empty"
  "settled two_peers = []"
  "nextPromise two_peers = 0"
  "uuidCount two_peers = Suc (Suc 0)"
  "uuids two_peers = (\<lambda>n. replicate (Suc n) CHR ''c'')"
  "fetchConfig two_peers = \<lparr> maxWait' = Some 10000, hasReply' = Some True,
                       code' = Some 200, msg' = Some ''success'' \<rparr>"
  by (simp_all add: two_peers_def onConnection_def randomUUID_def sendMessage_def initial_def Let_def)

lemma one_request_tracker:
  "clients one_request ''c'' = Some \<lparr> ws' = 0, user' = \<lparr> id' = ''c'', groups = [] \<rparr> \<rparr>"
  "pendingFetches one_request = [''ccc'' \<mapsto> \<lparr> promise' = 0, clientId' = ''c'' \<rparr>]"
  "clientPendingFetches one_request = [''c'' \<mapsto> [''ccc'']]"
  "timers one_request = [0 \<mapsto> (''ccc'', 10000)]"
  "settled one_request = []"
  "nextPromise one_request = Suc 0"
  "uuidCount one_request = Suc (Suc (Suc 0))"
  "uuids one_request = (\<lambda>n. replicate (Suc n) CHR ''c'')"
  "fetchConfig one_request = \<lparr> maxWait' = Some 10000, hasReply' = Some True,
                       code' = Some 200, msg' = Some ''success'' \<rparr>"
  "maxMessageSize one_request = 1024 * 1024"
  unfolding one_request_def fetch_One_default[OF two_peers_tracker(10)]
  by (simp_all add: fetch_target_found[OF two_peers_tracker(1)] two_peers_tracker Set_add_def two_peers_io)

lemma two_requests_alt: "two_requests = snd (fetch (One ''c'') ''ask'' JNull None one_request)"
  by (simp add: two_requests_def one_request_def)

lemma two_requests_tracker:
  "clients two_requests ''c'' = Some \<lparr> ws' = 0, user' = \<lparr> id' = ''c'', groups = [] \<rparr> \<rparr>"
  "pendingFetches two_requests
     = [''ccc'' \<mapsto> \<lparr> promise' = 0, clientId' = ''c'' \<rparr>, ''cccc'' \<mapsto> \<lparr> promise' = Suc 0, clientId' = ''c'' \<rparr>]"
  "clientPendingFetches two_requests = [''c'' \<mapsto> [''ccc'', ''cccc'']]"
  "timers two_requests = [0 \<mapsto> (''ccc'', 10000), Suc 0 \<mapsto> (''cccc'', 10000)]"
  "settled two_requests = []"
  "nextPromise two_requests = Suc (Suc 0)"
  "uuids two_requests = (\<lambda>n. replicate (Suc n) CHR ''c'')"
  "maxMessageSize two_requests = 1024 * 1024"
  unfolding two_requests_alt fetch_One_default[OF one_request_tracker(9)]
  by (simp_all add: fetch_target_found[OF one_request_tracker(1)] one_request_tracker Set_add_def)

lemma two_requests_reachable: "reachable P two_requests"
  unfolding two_requests_def two_peers_def
  by (intro reachable.intros)

theorem disconnect_cancels_pending_witness:
  "reachable (\<lambda>_. SyntaxError) two_requests
   \<and> clients two_requests ''c'' = Some \<lparr> ws' = 0, user' = \<lparr> id' = ''c'', groups = [] \<rparr> \<rparr>
   \<and> pendingFetches two_requests ''ccc'' = Some \<lparr> promise' = 0, clientId' = ''c'' \<rparr>
   \<and> pendingFetches two_requests ''cccc'' = Some \<lparr> promise' = Suc 0, clientId' = ''c'' \<rparr>
   \<and> inj (uuids two_requests)
   \<and> promise_state (settled (state_of (cleanupClient ''c'' two_requests))) 0 = Some (Rejected ClientDisconnected)
   \<and> promise_state (settled (state_of (cleanupClient ''c'' two_requests))) (Suc 0) = Some (Rejected ClientDisconnected)
   \<and> pendingFetches (state_of (cleanupClient ''c'' two_requests)) ''ccc'' = None
   \<and> pendingFetches (state_of (cleanupClient ''c'' two_requests)) ''cccc'' = None
   \<and> clientPendingFetches (state_of (cleanupClient ''c'' two_requests)) ''c'' = None"
proof -
  note T = disconnect_cancels_pending[OF two_requests_reachable[of "\<lambda>_. SyntaxError"] two_requests_tracker(1)]
  have u: "inj (uuids two_requests)"
    unfolding two_requests_tracker(7) by (rule unique_uuids)
  have p0: "pendingFetches two_requests ''ccc'' = Some \<lparr> promise' = 0, clientId' = ''c'' \<rparr>"
    and p1: "pendingFetches two_requests ''cccc'' = Some \<lparr> promise' = Suc 0, clientId' = ''c'' \<rparr>"
    by (simp_all add: two_requests_tracker(2))
  from T have A: "\<And>f p. pendingFetches two_requests f = Some p \<Longrightarrow> clientId' p = ''c'' \<Longrightarrow>
       pendingFetches (state_of (cleanupClient ''c'' two_requests)) f = None
       \<and> promise_state (settled (state_of (cleanupClient ''c'' two_requests))) (promise' p)
             = Some (Rejected ClientDisconnected)"
    using u by blast
  from T have B: "clientPendingFetches (state_of (cleanupClient ''c'' two_requests)) ''c'' = None"
    by blast
  show ?thesis
    using A[OF p0] A[OF p1] B u p0 p1 two_requests_reachable[of "\<lambda>_. SyntaxError"] two_requests_tracker(1)
    by simp
qed

section \<open>A pending request is settled once\<close>

lemma unknown_reply_ignored:
  assumes "\<not> length rawMessage > maxMessageSize s"
    and "JSON_parse rawMessage = Parsed message"
    and "type' message = ''reply''"
    and "pendingFetches s (case fetchId' message of None \<Rightarrow> '''' | Some f \<Rightarrow> f) = None"
  shows "handleMessage JSON_parse ws user rawMessage s = Returned s"
  using assms
  by (simp add: handleMessage_def Let_def reply_branch_unknown split: option.splits)

text \<open>
  C3.  In every state the server can reach, when \<open>randomUUID\<close> never repeats a value,
  every promise the tracker has created is in exactly one of two conditions.  Either
  \<open>resolve\<close> or \<open>reject\<close> has been invoked on it exactly once, by a reply, by its
  deadline or by the teardown of its owner (or at once, for an unknown target), and
  then it has no timer and no pending entry, so nothing is left to settle it again.
  Or nothing has been invoked on it and it waits in the pending map with its deadline
  timer running, whose firing settles it with the timeout error.  A cleared timer
  does nothing, and a reply envelope whose \<open>fetchId\<close> is not in the pending map leaves
  the state as it is and returns without throwing.
\<close>

theorem pending_request_settles_once:
  assumes "reachable JSON_parse s" and "inj (uuids s)" and "q < nextPromise s"
  shows "((count_list (map fst (settled s)) q = 1 \<and> timers s q = None
            \<and> (\<forall>f p. pendingFetches s f = Some p \<longrightarrow> promise' p \<noteq> q))
          \<or> (count_list (map fst (settled s)) q = 0
            \<and> (\<exists>f w p. timers s q = Some (f, w) \<and> pendingFetches s f = Some p \<and> promise' p = q
                  \<and> settled (timeout_callback q s) = settled s @ [(q, Rejected (RequestTimeout w))])))
       \<and> (timers s q = None \<longrightarrow> timeout_callback q s = s)
       \<and> (\<not> length rawMessage > maxMessageSize s \<and> JSON_parse rawMessage = Parsed message
            \<and> type' message = ''reply''
            \<and> pendingFetches s (case fetchId' message of None \<Rightarrow> '''' | Some f \<Rightarrow> f) = None
          \<longrightarrow> handleMessage JSON_parse ws user rawMessage s = Returned s)"
proof -
  have inv: "tracker_inv s"
    by (rule reachable_inv[OF assms(1,2)])
  have d: "distinct (map fst (settled s))"
    by (rule inv_distinct[OF inv])
  have first: "(count_list (map fst (settled s)) q = 1 \<and> timers s q = None
            \<and> (\<forall>f p. pendingFetches s f = Some p \<longrightarrow> promise' p \<noteq> q))
          \<or> (count_list (map fst (settled s)) q = 0
            \<and> (\<exists>f w p. timers s q = Some (f, w) \<and> pendingFetches s f = Some p \<and> promise' p = q
                  \<and> settled (timeout_callback q s) = settled s @ [(q, Rejected (RequestTimeout w))]))"
  proof (cases "q \<in> fst ` set (settled s)")
    case True
    then obtain out where out: "(q, out) \<in> set (settled s)" by auto
    have tm: "timers s q = None"
      by (rule inv_settled[OF inv out])
    have "promise' p \<noteq> q" if "pendingFetches s f = Some p" for f p
      using inv_pending[OF inv that] tm by auto
    then show ?thesis
      using True tm d by (simp add: distinct_count_list)
  next
    case False
    then obtain f w where fw: "timers s q = Some (f, w)"
      using inv_created[OF inv assms(3)] by auto
    obtain p where p: "pendingFetches s f = Some p" "promise' p = q"
      using inv_timer[OF inv fw] by blast
    have "count_list (map fst (settled s)) q = 0"
      using False d by (simp add: distinct_count_list)
    then show ?thesis
      using fw p timeout_callback_fields(3)[OF fw] by blast
  qed
  show ?thesis
    using first timeout_callback_cleared[of s q] unknown_reply_ignored[where rawMessage = rawMessage and s = s
      and JSON_parse = JSON_parse and message = message and ws = ws and user = user]
    by blast
qed

lemma after_reply_alt: "after_reply = reply_branch ''ccc'' (JStr ''pong'') two_requests"
  by (simp add: after_reply_def handleMessage_def pong_message_def two_requests_tracker(8) Let_def)

lemma after_reply_reachable: "reachable (\<lambda>_. Parsed pong_message) after_reply"
  unfolding after_reply_def by (intro reachable.message two_requests_reachable)

lemma after_reply_tracker:
  "pendingFetches after_reply = [''cccc'' \<mapsto> \<lparr> promise' = Suc 0, clientId' = ''c'' \<rparr>]"
  "timers after_reply = [Suc 0 \<mapsto> (''cccc'', 10000)]"
  "settled after_reply = [(0, Fulfilled (JStr ''pong''))]"
  "nextPromise after_reply = Suc (Suc 0)"
  "uuids after_reply = (\<lambda>n. replicate (Suc n) CHR ''c'')"
  "maxMessageSize after_reply = 1024 * 1024"
proof -
  have p: "pendingFetches two_requests ''ccc'' = Some \<lparr> promise' = 0, clientId' = ''c'' \<rparr>"
    by (simp add: two_requests_tracker(2))
  show "pendingFetches after_reply = [''cccc'' \<mapsto> \<lparr> promise' = Suc 0, clientId' = ''c'' \<rparr>]"
    "timers after_reply = [Suc 0 \<mapsto> (''cccc'', 10000)]"
    "settled after_reply = [(0, Fulfilled (JStr ''pong''))]"
    "nextPromise after_reply = Suc (Suc 0)"
    "uuids after_reply = (\<lambda>n. replicate (Suc n) CHR ''c'')"
    unfolding after_reply_alt
    by (auto simp: reply_branch_fields[OF p] two_requests_tracker)
  show "maxMessageSize after_reply = 1024 * 1024"
    unfolding after_reply_alt
    by (simp add: reply_branch_def p two_requests_tracker(8) pending_resolve_def settle_def clearTimeout_def
        dropReverseIndex_def Let_def split: option.splits)
qed

theorem pending_request_settles_once_witness:
  "reachable (\<lambda>_. Parsed pong_message) after_reply
   \<and> inj (uuids after_reply)
   \<and> 0 < nextPromise after_reply
   \<and> settled after_reply = [(0, Fulfilled (JStr ''pong''))]
   \<and> count_list (map fst (settled after_reply)) 0 = 1
   \<and> timers after_reply 0 = None
   \<and> timeout_callback 0 after_reply = after_reply
   \<and> handleMessage (\<lambda>_. Parsed pong_message) 0 peer_c ''{}'' after_reply = Returned after_reply"
proof -
  have u: "inj (uuids after_reply)"
    unfolding after_reply_tracker(5) by (rule unique_uuids)
  have n: "0 < nextPromise after_reply"
    by (simp add: after_reply_tracker)
  note T = pending_request_settles_once[OF after_reply_reachable u n,
      where rawMessage = "''{}''" and message = pong_message and ws = 0 and user = peer_c]
  have gone: "pendingFetches after_reply ''ccc'' = None"
    by (simp add: after_reply_tracker)
  have "handleMessage (\<lambda>_. Parsed pong_message) 0 peer_c ''{}'' after_reply = Returned after_reply"
    using T gone by (simp add: after_reply_tracker pong_message_def)
  moreover have "timers after_reply 0 = None"
    by (simp add: after_reply_tracker)
  moreover have "timeout_callback 0 after_reply = after_reply"
    using T \<open>timers after_reply 0 = None\<close> by blast
  ultimately show ?thesis
    using after_reply_reachable u n by (simp add: after_reply_tracker)
qed

section \<open>Fetch to several targets\<close>

lemma clients_fetch_target [simp]:
  "clients (snd (fetch_target e w c d m (ps, s) cid)) = clients s"
  by (cases "clients s cid") (simp_all add: fetch_target_missing fetch_target_found)

lemma fetch_target_step:
  "fst (fetch_target e w c d m (ps, s) cid) = ps @ [nextPromise s]"
  "nextPromise (snd (fetch_target e w c d m (ps, s) cid)) = Suc (nextPromise s)"
  "settled (snd (fetch_target e w c d m (ps, s) cid))
     = settled s @ (case clients s cid of None \<Rightarrow> [(nextPromise s, Rejected (ClientNotFound cid))]
                    | Some c \<Rightarrow> [])"
  by (cases "clients s cid"; simp add: fetch_target_missing fetch_target_found)+

lemma fetch_target_keeps:
  assumes "tracker_inv s"
  shows "pendingFetches s f = Some p \<Longrightarrow> pendingFetches (snd (fetch_target e w c d m (ps, s) cid)) f = Some p"
    and "timers s q = Some fw \<Longrightarrow> timers (snd (fetch_target e w c d m (ps, s) cid)) q = Some fw"
proof -
  show "pendingFetches s f = Some p \<Longrightarrow> pendingFetches (snd (fetch_target e w c d m (ps, s) cid)) f = Some p"
    using inv_fresh_uuid[OF assms]
    by (cases "clients s cid") (auto simp: fetch_target_missing fetch_target_found)
  show "timers s q = Some fw \<Longrightarrow> timers (snd (fetch_target e w c d m (ps, s) cid)) q = Some fw"
    using inv_fresh_promise(1)[OF assms]
    by (cases "clients s cid") (auto simp: fetch_target_missing fetch_target_found)
qed

lemma fetch_target_registers:
  assumes "clients s cid = Some connection"
  shows "pendingFetches (snd (fetch_target e w c d m (ps, s) cid)) (uuids s (uuidCount s))
           = Some \<lparr> promise' = nextPromise s, clientId' = cid \<rparr>"
    and "timers (snd (fetch_target e w c d m (ps, s) cid)) (nextPromise s)
           = Some (uuids s (uuidCount s), w)"
  by (simp_all add: fetch_target_found[OF assms])

lemma fetch_loop_all:
  assumes "tracker_inv s"
  shows "fst (foldl (fetch_target e w c d m) (ps, s) ids)
           = ps @ [nextPromise s ..< nextPromise s + length ids]
       \<and> clients (snd (foldl (fetch_target e w c d m) (ps, s) ids)) = clients s
       \<and> settled (snd (foldl (fetch_target e w c d m) (ps, s) ids))
           = settled s @ rejections (clients s) (nextPromise s) ids
       \<and> (\<forall>f p. pendingFetches s f = Some p \<longrightarrow>
           pendingFetches (snd (foldl (fetch_target e w c d m) (ps, s) ids)) f = Some p)
       \<and> (\<forall>q fw. timers s q = Some fw \<longrightarrow>
           timers (snd (foldl (fetch_target e w c d m) (ps, s) ids)) q = Some fw)
       \<and> (\<forall>i. i < length ids \<and> clients s (ids ! i) \<noteq> None \<longrightarrow>
           (\<exists>f. pendingFetches (snd (foldl (fetch_target e w c d m) (ps, s) ids)) f
                  = Some \<lparr> promise' = nextPromise s + i, clientId' = ids ! i \<rparr>
              \<and> timers (snd (foldl (fetch_target e w c d m) (ps, s) ids)) (nextPromise s + i)
                  = Some (f, w)))"
  using assms
proof (induction ids arbitrary: ps s)
  case Nil
  then show ?case by simp
next
  case (Cons i0 ids)
  define s1 where "s1 = snd (fetch_target e w c d m (ps, s) i0)"
  define t where "t = snd (foldl (fetch_target e w c d m) (ps @ [nextPromise s], s1) ids)"
  have step: "fetch_target e w c d m (ps, s) i0 = (ps @ [nextPromise s], s1)"
    unfolding s1_def using fetch_target_step(1)[of e w c d m ps s i0]
    by (simp add: prod_eq_iff)
  have n1: "nextPromise s1 = Suc (nextPromise s)" and c1: "clients s1 = clients s"
    and st1: "settled s1 = settled s @ (case clients s i0 of
                 None \<Rightarrow> [(nextPromise s, Rejected (ClientNotFound i0))] | Some c \<Rightarrow> [])"
    unfolding s1_def by (simp_all add: fetch_target_step)
  have inv1: "tracker_inv s1"
    unfolding s1_def by (rule inv_fetch_target[OF Cons.prems])
  have fold: "foldl (fetch_target e w c d m) (ps, s) (i0 # ids)
            = foldl (fetch_target e w c d m) (ps @ [nextPromise s], s1) ids"
    by (simp add: step)
  note IH = Cons.IH[OF inv1, of "ps @ [nextPromise s]", folded t_def]
  have ih1: "fst (foldl (fetch_target e w c d m) (ps @ [nextPromise s], s1) ids)
           = (ps @ [nextPromise s]) @ [nextPromise s1 ..< nextPromise s1 + length ids]"
    and ih2: "clients t = clients s1"
    and ih3: "settled t = settled s1 @ rejections (clients s1) (nextPromise s1) ids"
    and ih4: "\<And>f p. pendingFetches s1 f = Some p \<Longrightarrow> pendingFetches t f = Some p"
    and ih5: "\<And>q fw. timers s1 q = Some fw \<Longrightarrow> timers t q = Some fw"
    and ih6: "\<And>i. i < length ids \<Longrightarrow> clients s1 (ids ! i) \<noteq> None \<Longrightarrow>
           \<exists>f. pendingFetches t f = Some \<lparr> promise' = nextPromise s1 + i, clientId' = ids ! i \<rparr>
              \<and> timers t (nextPromise s1 + i) = Some (f, w)"
    using IH by blast+
  have A: "fst (foldl (fetch_target e w c d m) (ps, s) (i0 # ids))
           = ps @ [nextPromise s ..< nextPromise s + length (i0 # ids)]"
  proof -
    have "[nextPromise s ..< nextPromise s + Suc (length ids)]
        = nextPromise s # [Suc (nextPromise s) ..< Suc (nextPromise s) + length ids]"
      using upt_rec[of "nextPromise s" "nextPromise s + Suc (length ids)"] by simp
    then show ?thesis
      unfolding fold ih1 n1 by simp
  qed
  have B: "clients t = clients s"
    by (simp add: ih2 c1)
  have C: "settled t = settled s @ rejections (clients s) (nextPromise s) (i0 # ids)"
    by (simp add: ih3 c1 n1 st1)
  have D: "pendingFetches t f = Some p" if "pendingFetches s f = Some p" for f p
    by (rule ih4) (simp add: s1_def fetch_target_keeps(1)[OF Cons.prems that])
  have E: "timers t q = Some fw" if "timers s q = Some fw" for q fw
    by (rule ih5) (simp add: s1_def fetch_target_keeps(2)[OF Cons.prems that])
  have F: "\<exists>f. pendingFetches t f = Some \<lparr> promise' = nextPromise s + i, clientId' = (i0 # ids) ! i \<rparr>
              \<and> timers t (nextPromise s + i) = Some (f, w)"
    if i: "i < length (i0 # ids)" "clients s ((i0 # ids) ! i) \<noteq> None" for i
  proof (cases i)
    case 0
    with i obtain connection where conn: "clients s i0 = Some connection" by auto
    have "pendingFetches s1 (uuids s (uuidCount s)) = Some \<lparr> promise' = nextPromise s, clientId' = i0 \<rparr>"
      and "timers s1 (nextPromise s) = Some (uuids s (uuidCount s), w)"
      unfolding s1_def by (simp_all add: fetch_target_registers[OF conn])
    then have "pendingFetches t (uuids s (uuidCount s)) = Some \<lparr> promise' = nextPromise s, clientId' = i0 \<rparr>"
      and "timers t (nextPromise s) = Some (uuids s (uuidCount s), w)"
      by (simp_all add: ih4 ih5)
    then show ?thesis
      using 0 by auto
  next
    case (Suc j)
    with i have j: "j < length ids" "clients s1 (ids ! j) \<noteq> None"
      by (simp_all add: c1)
    show ?thesis
      using ih6[OF j] Suc n1 by simp
  qed
  show ?case
    unfolding fold t_def[symmetric]
    using A[unfolded fold] B C D E F by blast
qed

lemma fetch_loop:
  assumes "tracker_inv s"
  shows "fst (foldl (fetch_target e w c d m) (ps, s) ids)
           = ps @ [nextPromise s ..< nextPromise s + length ids]"
    and "clients (snd (foldl (fetch_target e w c d m) (ps, s) ids)) = clients s"
    and "settled (snd (foldl (fetch_target e w c d m) (ps, s) ids))
           = settled s @ rejections (clients s) (nextPromise s) ids"
    and "\<And>f p. pendingFetches s f = Some p \<Longrightarrow>
           pendingFetches (snd (foldl (fetch_target e w c d m) (ps, s) ids)) f = Some p"
    and "\<And>q fw. timers s q = Some fw \<Longrightarrow>
           timers (snd (foldl (fetch_target e w c d m) (ps, s) ids)) q = Some fw"
    and "\<And>i. i < length ids \<Longrightarrow> clients s (ids ! i) \<noteq> None \<Longrightarrow>
           \<exists>f. pendingFetches (snd (foldl (fetch_target e w c d m) (ps, s) ids)) f
                  = Some \<lparr> promise' = nextPromise s + i, clientId' = ids ! i \<rparr>
              \<and> timers (snd (foldl (fetch_target e w c d m) (ps, s) ids)) (nextPromise s + i)
                  = Some (f, w)"
  using fetch_loop_all[OF assms, of e w c d m ps ids] by blast+

lemma rejections_first:
  assumes "find (\<lambda>i. cl i = None) ids = Some x"
  shows "\<exists>k rest. rejections cl n ids = (n + k, Rejected (ClientNotFound x)) # rest \<and> k < length ids"
  using assms
proof (induction ids arbitrary: n)
  case Nil
  then show ?case by simp
next
  case (Cons i ids)
  show ?case
  proof (cases "cl i")
    case None
    with Cons.prems have "x = i" by simp
    with None show ?thesis
      by (intro exI[of _ 0]) simp
  next
    case (Some c)
    with Cons.prems have "find (\<lambda>i. cl i = None) ids = Some x" by simp
    from Cons.IH[OF this, of "Suc n"] obtain k rest where
      "rejections cl (Suc n) ids = (Suc n + k, Rejected (ClientNotFound x)) # rest" "k < length ids"
      by blast
    with Some show ?thesis
      by (intro exI[of _ "Suc k"]) simp
  qed
qed

lemma rejections_bound: "(q, out) \<in> set (rejections cl n ids) \<Longrightarrow> n \<le> q"
proof (induction ids arbitrary: n)
  case Nil
  then show ?case by simp
next
  case (Cons i ids)
  from Cons.prems consider "q = n" | "(q, out) \<in> set (rejections cl (Suc n) ids)"
    by (auto split: option.splits)
  then show ?case
  proof cases
    case 1
    then show ?thesis by simp
  next
    case 2
    from Cons.IH[OF this] show ?thesis by simp
  qed
qed

lemma first_rejection_after_old:
  assumes "\<And>q out. (q, out) \<in> set log \<Longrightarrow> q \<notin> set qs"
    and "q0 \<in> set qs" and "q0 \<notin> set seen"
  shows "first_rejection qs seen (log @ (q0, Rejected e) # rest) = Some e"
  using assms
proof (induction log arbitrary: seen)
  case Nil
  then show ?case by simp
next
  case (Cons entry log)
  obtain q out where entry: "entry = (q, out)" by (cases entry)
  have nq: "q \<notin> set qs" using Cons.prems(1)[of q out] entry by simp
  then have ne: "q \<noteq> q0" using Cons.prems(2) by auto
  have old: "q' \<notin> set qs" if "(q', out') \<in> set log" for q' out'
    using Cons.prems(1)[of q' out'] that by simp
  have ih: "first_rejection qs seen' (log @ (q0, Rejected e) # rest) = Some e" if "q0 \<notin> set seen'" for seen'
    by (rule Cons.IH[OF old Cons.prems(2) that])
  show ?case
    using nq ne Cons.prems(3) ih[of seen] ih[of "q # seen"] entry
    by (cases out) auto
qed

lemma first_rejection_none:
  assumes "\<And>q. q \<in> set qs \<Longrightarrow> q \<in> set seen \<or> is_fulfilled log q"
  shows "first_rejection qs seen log = None"
  using assms
proof (induction log arbitrary: seen)
  case Nil
  then show ?case by simp
next
  case (Cons entry log)
  obtain q out where entry: "entry = (q, out)" by (cases entry)
  show ?case
  proof (cases "q \<in> set seen")
    case True
    have "first_rejection qs seen log = None"
    proof (rule Cons.IH)
      fix q' assume "q' \<in> set qs"
      from Cons.prems[OF this] True show "q' \<in> set seen \<or> is_fulfilled log q'"
        by (auto simp: is_fulfilled_def promise_state_def entry split: if_splits)
    qed
    with True entry show ?thesis by simp
  next
    case False
    have rec: "first_rejection qs (q # seen) log = None"
    proof (rule Cons.IH)
      fix q' assume "q' \<in> set qs"
      from Cons.prems[OF this] show "q' \<in> set (q # seen) \<or> is_fulfilled log q'"
        by (auto simp: is_fulfilled_def promise_state_def entry split: if_splits)
    qed
    show ?thesis
    proof (cases out)
      case (Fulfilled v)
      with False rec entry show ?thesis by simp
    next
      case (Rejected e)
      have "q \<notin> set qs"
      proof
        assume "q \<in> set qs"
        from Cons.prems[OF this] False show False
          by (simp add: is_fulfilled_def promise_state_def entry Rejected)
      qed
      with False rec entry Rejected show ?thesis by simp
    qed
  qed
qed

section \<open>The overall promise of a fetch to several targets\<close>

lemma fetch_Many_await:
  assumes "hasReply' (mergeConfig (fetchConfig s) cfg) \<noteq> Some False"
  obtains w c m where
    "snd (fetch (Many ids) e d cfg s) = snd (foldl (fetch_target e w c d m) ([], s) ids)"
    "length (fst (foldl (fetch_target e w c d m) ([], s) ids)) \<noteq> 1 \<Longrightarrow>
       fst (fetch (Many ids) e d cfg s) = All (fst (foldl (fetch_target e w c d m) ([], s) ids))"
proof -
  define fc where "fc = mergeConfig (fetchConfig s) cfg"
  define w where "w = (case maxWait' fc of None \<Rightarrow> 10000 | Some v \<Rightarrow> v)"
  define c where "c = (case code' fc of None \<Rightarrow> 200 | Some v \<Rightarrow> v)"
  define m where "m = (case msg' fc of None \<Rightarrow> ''success'' | Some v \<Rightarrow> v)"
  have h: "(case hasReply' fc of None \<Rightarrow> True | Some v \<Rightarrow> v)"
    using assms unfolding fc_def by (cases "hasReply' (mergeConfig (fetchConfig s) cfg)") auto
  have eq: "fetch (Many ids) e d cfg s
        = (let (promises, s1) = foldl (fetch_target e w c d m) ([], s) ids
           in if length promises = 1 then (Single (promises ! 0), s1) else (All promises, s1))"
    using h unfolding fetch_def fc_def[symmetric] Let_def w_def c_def m_def by simp
  obtain ps s1 where f: "foldl (fetch_target e w c d m) ([], s) ids = (ps, s1)"
    by (cases "foldl (fetch_target e w c d m) ([], s) ids")
  show ?thesis
    by (rule that[of w c m]) (simp_all add: eq f)
qed

lemma first_rejection_some:
  assumes "q \<in> set qs" and "q \<notin> set seen" and "promise_state log q = Some (Rejected e)"
  shows "first_rejection qs seen log \<noteq> None"
  using assms
proof (induction log arbitrary: seen)
  case Nil
  then show ?case by (simp add: promise_state_def)
next
  case (Cons entry log)
  obtain q' out where entry: "entry = (q', out)" by (cases entry)
  show ?case
  proof (cases "q' = q")
    case True
    with Cons.prems entry have "out = Rejected e"
      by (simp add: promise_state_def)
    with True Cons.prems entry show ?thesis by simp
  next
    case False
    with Cons.prems entry have later: "promise_state log q = Some (Rejected e)"
      by (simp add: promise_state_def)
    have a: "first_rejection qs seen log \<noteq> None"
      by (rule Cons.IH[OF Cons.prems(1,2) later])
    have "q \<notin> set (q' # seen)"
      using False Cons.prems(2) by simp
    from Cons.IH[OF Cons.prems(1) this later]
    have b: "first_rejection qs (q' # seen) log \<noteq> None" .
    show ?thesis
      using a b entry by (cases out) auto
  qed
qed

lemma Promise_all_fulfilled:
  "Promise_all log qs = Some (Fulfilled v)
     \<longleftrightarrow> list_all (is_fulfilled log) qs \<and> v = JArr (map (value_of log) qs)"
proof
  assume "Promise_all log qs = Some (Fulfilled v)"
  then show "list_all (is_fulfilled log) qs \<and> v = JArr (map (value_of log) qs)"
    by (auto simp: Promise_all_def split: option.splits if_splits)
next
  assume a: "list_all (is_fulfilled log) qs \<and> v = JArr (map (value_of log) qs)"
  then have "first_rejection qs [] log = None"
    by (intro first_rejection_none) (simp add: list_all_iff)
  with a show "Promise_all log qs = Some (Fulfilled v)"
    by (simp add: Promise_all_def)
qed

lemma Promise_all_rejected:
  assumes "q \<in> set qs" and "promise_state log q = Some (Rejected e)"
  shows "\<exists>e'. Promise_all log qs = Some (Rejected e')"
  using first_rejection_some[OF assms(1) _ assms(2), of "[]"]
  by (auto simp: Promise_all_def split: option.splits)

lemma fetch_many_facts:
  assumes inv: "tracker_inv s"
    and cfg: "hasReply' (mergeConfig (fetchConfig s) cfg) \<noteq> Some False"
    and len: "2 \<le> length ids"
  shows "fst (fetch (Many ids) e d cfg s) = All [nextPromise s ..< nextPromise s + length ids]"
    and "find (\<lambda>i. clients s i = None) ids = Some x \<Longrightarrow>
           Promise_all (settled (snd (fetch (Many ids) e d cfg s)))
                       [nextPromise s ..< nextPromise s + length ids]
             = Some (Rejected (ClientNotFound x))"
    and "i < length ids \<Longrightarrow> clients s (ids ! i) \<noteq> None \<Longrightarrow>
           (\<exists>f w. pendingFetches (snd (fetch (Many ids) e d cfg s)) f
                     = Some \<lparr> promise' = nextPromise s + i, clientId' = ids ! i \<rparr>
                 \<and> timers (snd (fetch (Many ids) e d cfg s)) (nextPromise s + i) = Some (f, w))
           \<and> promise_state (settled (snd (fetch (Many ids) e d cfg s))) (nextPromise s + i) = None"
proof -
  obtain w c m where
    st: "snd (fetch (Many ids) e d cfg s) = snd (foldl (fetch_target e w c d m) ([], s) ids)"
    and rs: "length (fst (foldl (fetch_target e w c d m) ([], s) ids)) \<noteq> 1 \<Longrightarrow>
       fst (fetch (Many ids) e d cfg s) = All (fst (foldl (fetch_target e w c d m) ([], s) ids))"
    by (rule fetch_Many_await[OF cfg, of ids e d]) blast
  note L = fetch_loop[OF inv, where e = e and w = w and c = c and d = d and m = m
      and ps = "[]" and ids = ids]
  have ps: "fst (foldl (fetch_target e w c d m) ([], s) ids)
          = [nextPromise s ..< nextPromise s + length ids]"
    using L(1) by simp
  show "fst (fetch (Many ids) e d cfg s) = All [nextPromise s ..< nextPromise s + length ids]"
    using rs len unfolding ps by simp
  have inv': "tracker_inv (snd (fetch (Many ids) e d cfg s))"
    by (rule fetch_inv[OF inv])
  show "Promise_all (settled (snd (fetch (Many ids) e d cfg s)))
                       [nextPromise s ..< nextPromise s + length ids]
             = Some (Rejected (ClientNotFound x))"
    if "find (\<lambda>i. clients s i = None) ids = Some x"
  proof -
    from rejections_first[OF that, of "nextPromise s"] obtain k rest where
      r: "rejections (clients s) (nextPromise s) ids
            = (nextPromise s + k, Rejected (ClientNotFound x)) # rest" and k: "k < length ids"
      by blast
    have old: "q \<notin> set [nextPromise s ..< nextPromise s + length ids]"
      if "(q, out) \<in> set (settled s)" for q out
      using inv_settled_bound[OF inv that] by simp
    have "first_rejection [nextPromise s ..< nextPromise s + length ids] []
            (settled s @ (nextPromise s + k, Rejected (ClientNotFound x)) # rest)
          = Some (ClientNotFound x)"
      by (rule first_rejection_after_old[OF old]) (use k in simp_all)
    then show ?thesis
      unfolding st L(3) r by (simp add: Promise_all_def)
  qed
  show "(\<exists>f w. pendingFetches (snd (fetch (Many ids) e d cfg s)) f
                     = Some \<lparr> promise' = nextPromise s + i, clientId' = ids ! i \<rparr>
                 \<and> timers (snd (fetch (Many ids) e d cfg s)) (nextPromise s + i) = Some (f, w))
           \<and> promise_state (settled (snd (fetch (Many ids) e d cfg s))) (nextPromise s + i) = None"
    if i: "i < length ids" "clients s (ids ! i) \<noteq> None"
  proof -
    from L(6)[OF i] obtain f where
      f: "pendingFetches (snd (fetch (Many ids) e d cfg s)) f
            = Some \<lparr> promise' = nextPromise s + i, clientId' = ids ! i \<rparr>"
         "timers (snd (fetch (Many ids) e d cfg s)) (nextPromise s + i) = Some (f, w)"
      unfolding st by blast
    have "nextPromise s + i \<notin> fst ` set (settled (snd (fetch (Many ids) e d cfg s)))"
    proof
      assume "nextPromise s + i \<in> fst ` set (settled (snd (fetch (Many ids) e d cfg s)))"
      then obtain out where "(nextPromise s + i, out) \<in> set (settled (snd (fetch (Many ids) e d cfg s)))"
        by auto
      from inv_settled[OF inv' this] f(2) show False by simp
    qed
    then have "promise_state (settled (snd (fetch (Many ids) e d cfg s))) (nextPromise s + i) = None"
      by (simp add: promise_state_def map_of_eq_None_iff)
    with f show ?thesis by blast
  qed
qed

lemma two_peers_reachable: "reachable P two_peers"
  unfolding two_peers_def by (intro reachable.intros)

text \<open>
  C1 (amended).  In every state the server can reach, when \<open>randomUUID\<close> never repeats a
  value, a call of \<open>fetch\<close> with a list of two or more target ids and \<open>hasReply\<close> not
  switched off returns \<open>Promise.all\<close> over one promise per target, in the order of the
  ids.  The overall promise is fulfilled, with the ordered list of the targets' reply
  bodies, exactly when every target's promise is fulfilled; it is rejected as soon as
  any one target's promise is rejected, whatever the other targets have done.  In
  particular, when some id is not connected the overall promise is already rejected
  when \<open>fetch\<close> returns, with \<open>Client <id> not found\<close> for the first such id.  The
  failure of one target cancels nothing: every connected target has its request
  registered as pending under its own promise, with its deadline timer running.
\<close>

theorem fetch_many_rejects_on_first_failure:
  assumes "reachable JSON_parse s" and "inj (uuids s)"
    and "hasReply' (mergeConfig (fetchConfig s) config) \<noteq> Some False"
    and "2 \<le> length ids"
  shows "fst (fetch (Many ids) event data config s)
           = All [nextPromise s ..< nextPromise s + length ids]
       \<and> (\<forall>log v. returned_promise log (fst (fetch (Many ids) event data config s)) = Some (Fulfilled v)
             \<longleftrightarrow> list_all (is_fulfilled log) [nextPromise s ..< nextPromise s + length ids]
                 \<and> v = JArr (map (value_of log) [nextPromise s ..< nextPromise s + length ids]))
       \<and> (\<forall>log i e. i < length ids \<and> promise_state log (nextPromise s + i) = Some (Rejected e)
             \<longrightarrow> (\<exists>e'. returned_promise log (fst (fetch (Many ids) event data config s))
                           = Some (Rejected e')))
       \<and> (\<forall>x. find (\<lambda>i. clients s i = None) ids = Some x \<longrightarrow>
             returned_promise (settled (snd (fetch (Many ids) event data config s)))
                              (fst (fetch (Many ids) event data config s))
               = Some (Rejected (ClientNotFound x)))
       \<and> (\<forall>i. i < length ids \<and> clients s (ids ! i) \<noteq> None \<longrightarrow>
             (\<exists>f w. pendingFetches (snd (fetch (Many ids) event data config s)) f
                       = Some \<lparr> promise' = nextPromise s + i, clientId' = ids ! i \<rparr>
                   \<and> timers (snd (fetch (Many ids) event data config s)) (nextPromise s + i)
                       = Some (f, w))
             \<and> promise_state (settled (snd (fetch (Many ids) event data config s)))
                             (nextPromise s + i) = None)"
proof -
  have inv: "tracker_inv s"
    by (rule reachable_inv[OF assms(1,2)])
  note F = fetch_many_facts[OF inv assms(3,4), where e = event and d = data]
  let ?qs = "[nextPromise s ..< nextPromise s + length ids]"
  have A: "fst (fetch (Many ids) event data config s) = All ?qs"
    by (rule F(1))
  have B: "\<forall>log v. returned_promise log (fst (fetch (Many ids) event data config s)) = Some (Fulfilled v)
             \<longleftrightarrow> list_all (is_fulfilled log) ?qs \<and> v = JArr (map (value_of log) ?qs)"
    unfolding A by (simp add: returned_promise_def Promise_all_fulfilled)
  have C: "\<forall>log i e. i < length ids \<and> promise_state log (nextPromise s + i) = Some (Rejected e)
             \<longrightarrow> (\<exists>e'. returned_promise log (fst (fetch (Many ids) event data config s))
                           = Some (Rejected e'))"
  proof (intro allI impI, elim conjE)
    fix log i e
    assume i: "i < length ids" and r: "promise_state log (nextPromise s + i) = Some (Rejected e)"
    have "nextPromise s + i \<in> set ?qs" using i by simp
    from Promise_all_rejected[OF this r]
    show "\<exists>e'. returned_promise log (fst (fetch (Many ids) event data config s)) = Some (Rejected e')"
      unfolding A by (simp add: returned_promise_def)
  qed
  have D: "\<forall>x. find (\<lambda>i. clients s i = None) ids = Some x \<longrightarrow>
             returned_promise (settled (snd (fetch (Many ids) event data config s)))
                              (fst (fetch (Many ids) event data config s))
               = Some (Rejected (ClientNotFound x))"
    unfolding A using F(2) by (simp add: returned_promise_def)
  have E: "\<forall>i. i < length ids \<and> clients s (ids ! i) \<noteq> None \<longrightarrow>
             (\<exists>f w. pendingFetches (snd (fetch (Many ids) event data config s)) f
                       = Some \<lparr> promise' = nextPromise s + i, clientId' = ids ! i \<rparr>
                   \<and> timers (snd (fetch (Many ids) event data config s)) (nextPromise s + i)
                       = Some (f, w))
             \<and> promise_state (settled (snd (fetch (Many ids) event data config s)))
                             (nextPromise s + i) = None"
    by (intro allI impI, elim conjE, rule F(3))
  show ?thesis
    by (rule conjI[OF A conjI[OF B conjI[OF C conjI[OF D E]]]])
qed

theorem fetch_many_rejects_on_first_failure_witness:
  "reachable (\<lambda>_. SyntaxError) two_peers
   \<and> inj (uuids two_peers)
   \<and> hasReply' (mergeConfig (fetchConfig two_peers) None) \<noteq> Some False
   \<and> 2 \<le> length [''x'', ''c'']
   \<and> fst (fetch (Many [''x'', ''c'']) ''ask'' JNull None two_peers) = All [0, Suc 0]
   \<and> returned_promise (settled (snd (fetch (Many [''x'', ''c'']) ''ask'' JNull None two_peers)))
                      (fst (fetch (Many [''x'', ''c'']) ''ask'' JNull None two_peers))
       = Some (Rejected (ClientNotFound ''x''))
   \<and> (\<exists>f w. pendingFetches (snd (fetch (Many [''x'', ''c'']) ''ask'' JNull None two_peers)) f
               = Some \<lparr> promise' = Suc 0, clientId' = ''c'' \<rparr>
           \<and> timers (snd (fetch (Many [''x'', ''c'']) ''ask'' JNull None two_peers)) (Suc 0)
               = Some (f, w))
   \<and> promise_state (settled (snd (fetch (Many [''x'', ''c'']) ''ask'' JNull None two_peers))) (Suc 0)
       = None"
proof -
  have u: "inj (uuids two_peers)"
    unfolding two_peers_tracker(9) by (rule unique_uuids)
  have h: "hasReply' (mergeConfig (fetchConfig two_peers) None) \<noteq> Some False"
    by (simp add: mergeConfig_def two_peers_tracker(10))
  have l: "2 \<le> length [''x'', ''c'']"
    by simp
  note T = fetch_many_rejects_on_first_failure[OF two_peers_reachable[of "\<lambda>_. SyntaxError"] u h l,
      where event = "''ask''" and data = JNull]
  have qs: "[nextPromise two_peers ..< nextPromise two_peers + length [''x'', ''c'']] = [0, Suc 0]"
    using upt_rec[of 0 2] upt_rec[of 1 2] by (simp add: two_peers_tracker(7))
  have a: "fst (fetch (Many [''x'', ''c'']) ''ask'' JNull None two_peers) = All [0, Suc 0]"
    using T qs by simp
  have f: "find (\<lambda>i. clients two_peers i = None) [''x'', ''c''] = Some ''x''"
    by (simp add: two_peers_tracker(2))
  have b: "returned_promise (settled (snd (fetch (Many [''x'', ''c'']) ''ask'' JNull None two_peers)))
                      (fst (fetch (Many [''x'', ''c'']) ''ask'' JNull None two_peers))
       = Some (Rejected (ClientNotFound ''x''))"
    using T f by blast
  have i: "Suc 0 < length [''x'', ''c''] \<and> clients two_peers ([''x'', ''c''] ! Suc 0) \<noteq> None"
    by (simp add: two_peers_tracker(1))
  from T have "\<forall>i. i < length [''x'', ''c''] \<and> clients two_peers ([''x'', ''c''] ! i) \<noteq> None \<longrightarrow>
             (\<exists>f w. pendingFetches (snd (fetch (Many [''x'', ''c'']) ''ask'' JNull None two_peers)) f
                       = Some \<lparr> promise' = nextPromise two_peers + i, clientId' = [''x'', ''c''] ! i \<rparr>
                   \<and> timers (snd (fetch (Many [''x'', ''c'']) ''ask'' JNull None two_peers)) (nextPromise two_peers + i)
                       = Some (f, w))
             \<and> promise_state (settled (snd (fetch (Many [''x'', ''c'']) ''ask'' JNull None two_peers)))
                             (nextPromise two_peers + i) = None"
    by blast
  from this[rule_format, OF i]
  have c: "(\<exists>f w. pendingFetches (snd (fetch (Many [''x'', ''c'']) ''ask'' JNull None two_peers)) f
               = Some \<lparr> promise' = Suc 0, clientId' = ''c'' \<rparr>
           \<and> timers (snd (fetch (Many [''x'', ''c'']) ''ask'' JNull None two_peers)) (Suc 0)
               = Some (f, w))
   \<and> promise_state (settled (snd (fetch (Many [''x'', ''c'']) ''ask'' JNull None two_peers))) (Suc 0)
       = None"
    by (simp add: two_peers_tracker(7))
  show ?thesis
    using two_peers_reachable[of "\<lambda>_. SyntaxError"] u h l a b c by blast
qed

text \<open>
  The claim as first stated fails for the targets \<open>c\<close>, connected, and \<open>x\<close>, unknown:
  when \<open>fetch\<close> returns, the request to \<open>c\<close> is registered and its promise is still
  pending, and the overall promise is already rejected with \<open>Client x not found\<close>.
\<close>

theorem fetch_many_unknown_target_counterexample:
  "fst (fetch (Many [''c'', ''x'']) ''ask'' JNull None two_peers) = All [0, Suc 0]
   \<and> settled (snd (fetch (Many [''c'', ''x'']) ''ask'' JNull None two_peers))
       = [(Suc 0, Rejected (ClientNotFound ''x''))]
   \<and> pendingFetches (snd (fetch (Many [''c'', ''x'']) ''ask'' JNull None two_peers)) ''ccc''
       = Some \<lparr> promise' = 0, clientId' = ''c'' \<rparr>
   \<and> promise_state (settled (snd (fetch (Many [''c'', ''x'']) ''ask'' JNull None two_peers))) 0 = None
   \<and> returned_promise (settled (snd (fetch (Many [''c'', ''x'']) ''ask'' JNull None two_peers)))
                      (fst (fetch (Many [''c'', ''x'']) ''ask'' JNull None two_peers))
       = Some (Rejected (ClientNotFound ''x''))"
proof -
  have first: "fetch_target ''ask'' 10000 200 JNull ''success'' ([], two_peers) ''c'' = ([0], one_request)"
    unfolding one_request_def fetch_One_default[OF two_peers_tracker(10)]
    using fetch_target_step(1)[of "''ask''" 10000 200 JNull "''success''" "[]" two_peers "''c''"]
    by (simp add: prod_eq_iff two_peers_tracker(7))
  have gone: "clients one_request ''x'' = None"
    unfolding one_request_def fetch_One_default[OF two_peers_tracker(10)]
    by (simp add: two_peers_tracker(2))
  have loop: "foldl (fetch_target ''ask'' 10000 200 JNull ''success'') ([], two_peers) [''c'', ''x'']
            = ([0, Suc 0], one_request\<lparr> nextPromise := Suc (Suc 0),
                              settled := [(Suc 0, Rejected (ClientNotFound ''x''))] \<rparr>)"
    by (simp add: first fetch_target_missing[OF gone] one_request_tracker)
  have r: "fst (fetch (Many [''c'', ''x'']) ''ask'' JNull None two_peers) = All [0, Suc 0]"
  proof -
    have "length [''c'', ''x''] \<noteq> 1" by simp
    from fetch_Many_default(2)[OF two_peers_tracker(10) this, where e = "''ask''" and d = JNull]
    show ?thesis unfolding loop by simp
  qed
  have s: "snd (fetch (Many [''c'', ''x'']) ''ask'' JNull None two_peers)
         = one_request\<lparr> nextPromise := Suc (Suc 0),
                         settled := [(Suc 0, Rejected (ClientNotFound ''x''))] \<rparr>"
    unfolding fetch_Many_default(1)[OF two_peers_tracker(10)] loop by simp
  show ?thesis
    unfolding r s
    by (simp add: one_request_tracker returned_promise_def Promise_all_def promise_state_def)
qed

section \<open>The client gives up after the last retry\<close>




lemma clearConnectTimeout_fields [simp]:
  "shouldReconnect (clearConnectTimeout s) = shouldReconnect s"
  "reconnectCount (clearConnectTimeout s) = reconnectCount s"
  "config_c (clearConnectTimeout s) = config_c s"
  "nextTimer (clearConnectTimeout s) = nextTimer s"
  "nextSocket (clearConnectTimeout s) = nextSocket s"
  "reconnectTimer (clearConnectTimeout s) = reconnectTimer s"
  "onDisconnect (clearConnectTimeout s) = onDisconnect s"
  "app_c (clearConnectTimeout s) = app_c s"
  by (simp_all add: clearConnectTimeout_def clearTimeout_c_def split: option.splits)

















text \<open>The state \<open>connect\<close> leaves.\<close>

lemma close_config [simp]:
  "config_c (close s) = (config_c s)\<lparr> status := Disconnected \<rparr>"
proof -
  have "config_c (foldl (\<lambda>t p. (clearTimeout_c (snd p) t)\<lparr> failed := failed t @ [(fst p, ConnectionClosed)] \<rparr>) t ps)
        = config_c t" for t :: "'a MasSocketClinet" and ps
    by (induction ps arbitrary: t) (simp_all add: clearTimeout_c_def)
  then show ?thesis
    by (simp add: close_def cleanupPendingFetches_def Let_def clearTimeout_c_def split: option.splits)
qed















end
